theory Spec2Isabelle
  imports Complex_Main "HOL-Library.Multiset"
begin

section \<open>Arbitrage-chain detection of \<open>jito.py\<close>\<close>

text \<open>
  The embedding follows \<open>src/jito.py\<close>: \<open>construct_balance_changes\<close> (lines 131-155) and
  the body of the per-transaction loop of \<open>main\<close> (lines 180-252).

  \<^item> Python dictionaries keep insertion order and the code iterates them, so a dictionary is
    an association list in insertion order; assignment to a present key keeps its place,
    assignment to a new key appends.
  \<^item> Owners, mints and signatures are strings.
  \<^item> The per-mint changes are Python floats (\<open>y / 10 ** decimals\<close>). They are idealised as
    exact rationals: rounding, overflow and underflow of floats are not modelled.
  \<^item> Exceptions are values of \<open>error\<close>; a function that can raise returns \<open>error + 'a\<close>.
  \<^item> The local variables of \<open>main\<close> that survive from one chain (and one transaction) to
    the next, \<open>records\<close> and the loop variables of the two classification loops, are a
    record that every step takes and returns.
\<close>

subsection \<open>Data\<close>

type_synonym owner = string
type_synonym mint = string
type_synonym amount = rat

datatype error = ValueError | KeyError | UnboundLocalError

record ui_token_amount =
  ui_amount :: "string option"
  ui_decimals :: int

record token_balance =
  tb_owner :: owner
  tb_mint :: mint
  tb_uiTokenAmount :: ui_token_amount

record transaction_meta =
  postTokenBalances :: "token_balance list"
  preTokenBalances :: "token_balance list"

type_synonym change_acc = "(owner \<times> (mint \<times> int) list) list"
type_synonym balance_changes = "(owner \<times> (mint \<times> amount) list) list"

text \<open>A transfer key \<open>(mint, abs(change))\<close> and its two slots \<open>[None, None]\<close>.\<close>

type_synonym transfer_key = "mint \<times> amount"
type_synonym slots = "owner option \<times> owner option"
type_synonym slot_table = "(transfer_key \<times> slots) list"

text \<open>An element of \<open>pairs\<close> is the two-element list \<open>[v[0], v[1]]\<close>.\<close>

type_synonym edge = "owner \<times> owner"

type_synonym arb_record = "string \<times> owner \<times> mint \<times> amount"

record main_state =
  records :: "arb_record list"
  first_entry :: "(mint \<times> amount) option"
  last_entry :: "(mint \<times> amount) option"

subsection \<open>Dictionaries\<close>

fun dict_set :: "('k \<times> 'v) list \<Rightarrow> 'k \<Rightarrow> 'v \<Rightarrow> ('k \<times> 'v) list" where
  "dict_set [] k v = [(k, v)]"
| "dict_set ((k', v') # d) k v =
     (if k' = k then (k, v) # d else (k', v') # dict_set d k v)"

text \<open>\<open>d.pop(k, None)\<close>, the returned value dropped. Keys of a dictionary are unique, so
  removing every entry under \<open>k\<close> removes the one there is.\<close>

definition dict_pop :: "('k \<times> 'v) list \<Rightarrow> 'k \<Rightarrow> ('k \<times> 'v) list" where
  "dict_pop d k = filter (\<lambda>e. fst e \<noteq> k) d"

text \<open>The representation invariant of the nested dictionary: unique owners, and unique
  mints under each owner.\<close>

definition wf_changes :: "('a \<times> ('b \<times> 'c) list) list \<Rightarrow> bool" where
  "wf_changes d \<longleftrightarrow> distinct (map fst d) \<and> (\<forall>e \<in> set d. distinct (map fst (snd e)))"

subsection \<open>\<open>construct_balance_changes\<close>\<close>

text \<open>\<open>int(s)\<close> on a string: an optional sign and one or more ASCII digits, the form in which
  the ledger service renders raw amounts. Other spellings (blanks, underscores) are outside
  this fragment and are read as \<open>ValueError\<close>.\<close>

definition digit_of :: "char \<Rightarrow> int option" where
  "digit_of c = map_of (zip ''0123456789'' [0, 1, 2, 3, 4, 5, 6, 7, 8, 9]) c"

fun digits_value :: "int \<Rightarrow> string \<Rightarrow> int option" where
  "digits_value acc [] = Some acc"
| "digits_value acc (c # cs) =
     (case digit_of c of None \<Rightarrow> None | Some k \<Rightarrow> digits_value (10 * acc + k) cs)"

definition unsigned_int :: "string \<Rightarrow> error + int" where
  "unsigned_int s =
     (if s = [] then Inl ValueError
      else case digits_value 0 s of None \<Rightarrow> Inl ValueError | Some n \<Rightarrow> Inr n)"

definition py_int :: "string \<Rightarrow> error + int" where
  "py_int s =
     (case s of
        [] \<Rightarrow> Inl ValueError
      | c # cs \<Rightarrow>
          if c = CHR ''-'' then map_sum id uminus (unsigned_int cs)
          else if c = CHR ''+'' then unsigned_int cs
          else unsigned_int s)"

text \<open>\<open>x or "0"\<close>: \<open>None\<close> and the empty string are falsy.\<close>

definition or_zero :: "string option \<Rightarrow> string" where
  "or_zero x = (case x of None \<Rightarrow> ''0'' | Some s \<Rightarrow> if s = [] then ''0'' else s)"

text \<open>\<open>per_owner_per_mint_change[o][m] += n\<close> on the nested \<open>defaultdict\<close>: a missing owner
  starts with an empty dictionary, a missing mint with \<open>0\<close>.\<close>

definition add_change :: "change_acc \<Rightarrow> owner \<Rightarrow> mint \<Rightarrow> int \<Rightarrow> change_acc" where
  "add_change acc ow m n =
     (let inner = (case map_of acc ow of None \<Rightarrow> [] | Some d \<Rightarrow> d);
          old = (case map_of inner m of None \<Rightarrow> 0 | Some y \<Rightarrow> y)
      in dict_set acc ow (dict_set inner m (old + n)))"

text \<open>One of the two accumulation loops; \<open>sg\<close> is \<open>1\<close> for the post balances (\<open>+=\<close>) and
  \<open>-1\<close> for the pre balances (\<open>-=\<close>).\<close>

fun accumulate ::
  "int \<Rightarrow> token_balance list \<Rightarrow> change_acc \<times> (mint \<times> int) list
     \<Rightarrow> error + (change_acc \<times> (mint \<times> int) list)" where
  "accumulate sg [] st = Inr st"
| "accumulate sg (b # bs) st =
     (case py_int (or_zero (ui_amount (tb_uiTokenAmount b))) of
        Inl e \<Rightarrow> Inl e
      | Inr n \<Rightarrow>
          accumulate sg bs
            (add_change (fst st) (tb_owner b) (tb_mint b) (sg * n),
             dict_set (snd st) (tb_mint b) (ui_decimals (tb_uiTokenAmount b))))"

text \<open>\<open>10 ** d\<close>: an integer power for \<open>d \<ge> 0\<close>, a float below one otherwise.\<close>

definition pow10 :: "int \<Rightarrow> amount" where
  "pow10 d = (if 0 \<le> d then 10 ^ nat d else 1 / 10 ^ nat (- d))"

text \<open>The inner comprehension \<open>{x: y / 10 ** per_mint_decimals[x] for x, y in v.items() if y != 0}\<close>.\<close>

fun scale_items :: "(mint \<times> int) list \<Rightarrow> (mint \<times> int) list \<Rightarrow> error + (mint \<times> amount) list" where
  "scale_items decs [] = Inr []"
| "scale_items decs (e # v) =
     (if snd e \<noteq> 0 then
        (case map_of decs (fst e) of
           None \<Rightarrow> Inl KeyError
         | Some d \<Rightarrow>
             (case scale_items decs v of
                Inl err \<Rightarrow> Inl err
              | Inr r \<Rightarrow> Inr ((fst e, of_int (snd e) / pow10 d) # r)))
      else scale_items decs v)"

text \<open>The outer comprehension \<open>{k: ... for k, v in per_owner_per_mint_change.items() if v}\<close>:
  the test \<open>if v\<close> is on the accumulated dictionary \<open>v\<close>, not on the filtered one.\<close>

fun scale_owners :: "(mint \<times> int) list \<Rightarrow> change_acc \<Rightarrow> error + balance_changes" where
  "scale_owners decs [] = Inr []"
| "scale_owners decs (e # acc) =
     (if snd e \<noteq> [] then
        (case scale_items decs (snd e) of
           Inl err \<Rightarrow> Inl err
         | Inr r \<Rightarrow>
             (case scale_owners decs acc of
                Inl err \<Rightarrow> Inl err
              | Inr rs \<Rightarrow> Inr ((fst e, r) # rs)))
      else scale_owners decs acc)"

definition construct_balance_changes :: "transaction_meta \<Rightarrow> error + balance_changes" where
  "construct_balance_changes meta =
     (case accumulate 1 (postTokenBalances meta) ([], []) of
        Inl e \<Rightarrow> Inl e
      | Inr st1 \<Rightarrow>
          (case accumulate (- 1) (preTokenBalances meta) st1 of
             Inl e \<Rightarrow> Inl e
           | Inr st2 \<Rightarrow> scale_owners (snd st2) (fst st2)))"

subsection \<open>Leg detection and matching (lines 186-195)\<close>

text \<open>\<open>token_change_owners[k][i] = o\<close> on the \<open>defaultdict(lambda: [None, None])\<close>.\<close>

definition slot_assign :: "slot_table \<Rightarrow> transfer_key \<Rightarrow> nat \<Rightarrow> owner \<Rightarrow> slot_table" where
  "slot_assign tbl k i ow =
     (let v = (case map_of tbl k of None \<Rightarrow> (None, None) | Some v \<Rightarrow> v)
      in dict_set tbl k (if i = 0 then (Some ow, snd v) else (fst v, Some ow)))"

text \<open>The inner loop \<open>for mint, change in per_mint_change.items()\<close>.\<close>

fun record_leg :: "owner \<Rightarrow> (mint \<times> amount) list \<Rightarrow> slot_table \<Rightarrow> slot_table" where
  "record_leg ow [] tbl = tbl"
| "record_leg ow (e # es) tbl =
     record_leg ow es (slot_assign tbl (fst e, \<bar>snd e\<bar>) (if snd e < 0 then 0 else 1) ow)"

text \<open>The guard \<open>len(per_mint_change) == 2 and prod(per_mint_change.values()) < 0\<close>.\<close>

definition is_leg :: "(mint \<times> amount) list \<Rightarrow> bool" where
  "is_leg per_mint_change \<longleftrightarrow>
     length per_mint_change = 2 \<and> prod_list (map snd per_mint_change) < 0"

text \<open>The outer loop \<open>for owner, per_mint_change in per_owner_per_mint_change.items()\<close>.\<close>

fun token_change_owners :: "balance_changes \<Rightarrow> slot_table \<Rightarrow> slot_table" where
  "token_change_owners [] tbl = tbl"
| "token_change_owners (e # es) tbl =
     token_change_owners es (if is_leg (snd e) then record_leg (fst e) (snd e) tbl else tbl)"

text \<open>Truthiness of \<open>v[0] and v[1]\<close>: \<open>None\<close> and the empty string are falsy.\<close>

fun truthy :: "owner option \<Rightarrow> bool" where
  "truthy None = False"
| "truthy (Some s) = (s \<noteq> [])"

text \<open>\<open>pairs = [v for v in token_change_owners.values() if v[0] and v[1]]\<close>.\<close>

fun pairs_of :: "slot_table \<Rightarrow> edge list" where
  "pairs_of [] = []"
| "pairs_of ((k, (Some s, Some d)) # tbl) =
     (if s \<noteq> [] \<and> d \<noteq> [] then (s, d) # pairs_of tbl else pairs_of tbl)"
| "pairs_of ((k, v) # tbl) = pairs_of tbl"

subsection \<open>Chain building (lines 197-230)\<close>

text \<open>The scan \<open>for l in pairs\<close> with its \<open>break\<close>: the third argument is what is left to
  iterate, the second the whole work-list, from which \<open>pairs.remove(l)\<close> takes the first
  element equal to \<open>l\<close>. The result is \<open>found\<close>, \<open>link\<close> and \<open>pairs\<close> after the loop.\<close>

fun scan_pairs :: "owner list \<Rightarrow> edge list \<Rightarrow> edge list \<Rightarrow> bool \<times> owner list \<times> edge list" where
  "scan_pairs link pairs [] = (False, link, pairs)"
| "scan_pairs link pairs (l # rest) =
     (if fst l = last link then (True, link @ [snd l], remove1 l pairs)
      else if snd l = hd link then (True, fst l # link, remove1 l pairs)
      else scan_pairs link pairs rest)"

text \<open>The loops as written, with no assumption that they end: \<open>None\<close> is a run that never
  returns. \<open>extend_loop\<close> is \<open>while True\<close>, \<open>build_loop\<close> is \<open>while pairs\<close>.\<close>

partial_function (option) extend_loop :: "owner list \<Rightarrow> edge list \<Rightarrow> (owner list \<times> edge list) option" where
  "extend_loop link pairs =
     (case scan_pairs link pairs pairs of
        (found, link', pairs') \<Rightarrow>
          if found then extend_loop link' pairs' else Some (link', pairs'))"

partial_function (option) build_loop :: "edge list \<Rightarrow> edge list \<Rightarrow> edge list option" where
  "build_loop pairs links =
     (if pairs \<noteq> [] then
        Option.bind (extend_loop [fst (last pairs), snd (last pairs)] (butlast pairs))
          (\<lambda>r. build_loop (snd r) (links @ [(hd (fst r), last (fst r))]))
      else Some links)"

declare extend_loop.simps [code] build_loop.simps [code]

text \<open>Every successful scan takes one edge off the work-list, so both loops end; the
  total functions below have the bodies of the two loops, and \<open>extend_loop_eq\<close> and
  \<open>build_loop_eq\<close> show that the loops return what these compute.\<close>

lemma scan_pairs_shrinks:
  "scan_pairs link pairs rest = (True, link', pairs') \<Longrightarrow> set rest \<subseteq> set pairs
     \<Longrightarrow> Suc (length pairs') = length pairs"
  by (induction rest) (auto simp: length_remove1 split: if_splits, (cases pairs; simp)+)

lemma scan_pairs_found_less:
  "(True, link', pairs') = scan_pairs link pairs pairs \<Longrightarrow> length pairs' < length pairs"
  using scan_pairs_shrinks [of link pairs pairs link' pairs'] by simp

function extend_link :: "owner list \<Rightarrow> edge list \<Rightarrow> owner list \<times> edge list" where
  "extend_link link pairs =
     (case scan_pairs link pairs pairs of
        (found, link', pairs') \<Rightarrow>
          if found then extend_link link' pairs' else (link', pairs'))"
  by pat_completeness auto
termination
  by (relation "measure (\<lambda>(link, pairs). length pairs)") (auto dest: scan_pairs_found_less)

declare extend_link.simps [simp del]

lemma scan_pairs_not_found:
  "scan_pairs link pairs rest = (False, link', pairs') \<Longrightarrow> link' = link \<and> pairs' = pairs"
  by (induction rest) (auto split: if_splits)

lemma scan_pairs_found:
  "scan_pairs link pairs rest = (True, link', pairs') \<Longrightarrow>
     \<exists>l \<in> set rest. pairs' = remove1 l pairs \<and>
       (fst l = last link \<and> link' = link @ [snd l] \<or> snd l = hd link \<and> link' = fst l # link)"
  by (induction rest) (auto split: if_splits)

lemma extend_link_found:
  "scan_pairs link pairs pairs = (True, link', pairs') \<Longrightarrow>
     extend_link link pairs = extend_link link' pairs'"
  by (subst extend_link.simps) simp

lemma extend_link_done:
  "scan_pairs link pairs pairs = (False, link', pairs') \<Longrightarrow> extend_link link pairs = (link, pairs)"
  using scan_pairs_not_found [of link pairs pairs link' pairs']
  by (subst extend_link.simps) simp

lemma extend_link_induct [case_names step]:
  assumes "\<And>link pairs.
     (\<And>link' pairs'. scan_pairs link pairs pairs = (True, link', pairs') \<Longrightarrow> P link' pairs')
       \<Longrightarrow> P link pairs"
  shows "P link pairs"
proof (induction "length pairs" arbitrary: link pairs rule: less_induct)
  case less
  show ?case
  proof (rule assms)
    fix link' pairs'
    assume "scan_pairs link pairs pairs = (True, link', pairs')"
    then have "length pairs' < length pairs"
      using scan_pairs_found_less [of link' pairs' link pairs] by simp
    then show "P link' pairs'"
      by (rule less)
  qed
qed

lemma extend_link_length: "length (snd (extend_link link pairs)) \<le> length pairs"
proof (induction link pairs rule: extend_link_induct)
  case (step link pairs)
  obtain found link' pairs' where s: "scan_pairs link pairs pairs = (found, link', pairs')"
    by (cases "scan_pairs link pairs pairs") auto
  show ?case
  proof (cases found)
    case True
    with s step have "length (snd (extend_link link' pairs')) \<le> length pairs'"
      by simp
    moreover from s True have "length pairs' < length pairs"
      using scan_pairs_found_less [of link' pairs' link pairs] by simp
    ultimately show ?thesis
      using s True by (simp add: extend_link_found)
  next
    case False
    with s show ?thesis
      by (simp add: extend_link_done)
  qed
qed

text \<open>\<open>while pairs\<close>: \<open>link = pairs.pop()\<close> takes the last element, the inner loop extends
  it, and \<open>links.append((link[0], link[-1]))\<close> records its two ends.\<close>

function build_links :: "edge list \<Rightarrow> edge list \<Rightarrow> edge list" where
  "build_links pairs links =
     (if pairs \<noteq> [] then
        (let r = extend_link [fst (last pairs), snd (last pairs)] (butlast pairs)
         in build_links (snd r) (links @ [(hd (fst r), last (fst r))]))
      else links)"
  by pat_completeness auto
termination
proof (relation "measure (\<lambda>(pairs, links). length pairs)", simp)
  fix pairs links :: "edge list" and r
  assume "pairs \<noteq> []" and r: "r = extend_link [fst (last pairs), snd (last pairs)] (butlast pairs)"
  have "length (snd r) \<le> length (butlast pairs)"
    unfolding r by (rule extend_link_length)
  with \<open>pairs \<noteq> []\<close> have "length (snd r) < length pairs"
    by (cases pairs rule: rev_cases) auto
  then show "((snd r, links @ [(hd (fst r), last (fst r))]), (pairs, links))
      \<in> measure (\<lambda>(pairs, links). length pairs)"
    by simp
qed

declare build_links.simps [simp del]

text \<open>The same loop, keeping every finished \<open>link\<close> whole instead of its two ends: the
  bookkeeping needed to say which edges a chain is made of.\<close>

function build_chains :: "edge list \<Rightarrow> owner list list" where
  "build_chains pairs =
     (if pairs \<noteq> [] then
        (let r = extend_link [fst (last pairs), snd (last pairs)] (butlast pairs)
         in fst r # build_chains (snd r))
      else [])"
  by pat_completeness auto
termination
proof (relation "measure length", simp)
  fix pairs :: "edge list" and r
  assume "pairs \<noteq> []" and r: "r = extend_link [fst (last pairs), snd (last pairs)] (butlast pairs)"
  have "length (snd r) \<le> length (butlast pairs)"
    unfolding r by (rule extend_link_length)
  with \<open>pairs \<noteq> []\<close> have "length (snd r) < length pairs"
    by (cases pairs rule: rev_cases) auto
  then show "(snd r, pairs) \<in> measure length"
    by simp
qed

declare build_chains.simps [simp del]

text \<open>The edges a link is made of: each pair of neighbours.\<close>

definition link_edges :: "owner list \<Rightarrow> edge list" where
  "link_edges link = zip link (tl link)"

subsection \<open>Classification (lines 232-252)\<close>

text \<open>A \<open>for\<close> loop whose body is \<open>if stop(x): break\<close>: the loop variable is assigned every
  element in turn. Afterwards it holds the first element that stops the loop, the last
  element when none does, and what it held before when there is nothing to iterate
  (\<open>None\<close>: never assigned).\<close>

fun for_break :: "('a \<Rightarrow> bool) \<Rightarrow> 'a list \<Rightarrow> 'a option \<Rightarrow> 'a option" where
  "for_break stop [] cur = cur"
| "for_break stop (x # xs) cur = (if stop x then Some x else for_break stop xs (Some x))"

text \<open>The body of \<open>for first, last in links\<close>. \<open>per_owner_per_mint_change[first]\<close> is a plain
  dictionary lookup, and reading a loop variable that was never assigned raises.\<close>

definition classify_link ::
  "string \<Rightarrow> owner \<Rightarrow> balance_changes \<Rightarrow> main_state \<Rightarrow> edge \<Rightarrow> error + main_state" where
  "classify_link signature signer changes st lk =
     (case map_of changes (fst lk) of
        None \<Rightarrow> Inl KeyError
      | Some first_changes \<Rightarrow>
          (let fe = for_break (\<lambda>e. snd e > 0) first_changes (first_entry st) in
           case map_of changes (snd lk) of
             None \<Rightarrow> Inl KeyError
           | Some last_changes \<Rightarrow>
               (let le = for_break (\<lambda>e. snd e < 0) last_changes (last_entry st) in
                case fe of
                  None \<Rightarrow> Inl UnboundLocalError
                | Some f \<Rightarrow>
                    (case le of
                       None \<Rightarrow> Inl UnboundLocalError
                     | Some l \<Rightarrow>
                         Inr \<lparr>records =
                                (if fst f = fst l
                                 then records st @ [(signature, signer, fst f, - (snd f + snd l))]
                                 else records st),
                              first_entry = fe, last_entry = le\<rparr>))))"

fun classify_links ::
  "string \<Rightarrow> owner \<Rightarrow> balance_changes \<Rightarrow> main_state \<Rightarrow> edge list \<Rightarrow> error + main_state" where
  "classify_links signature signer changes st [] = Inr st"
| "classify_links signature signer changes st (lk # lks) =
     (case classify_link signature signer changes st lk of
        Inl e \<Rightarrow> Inl e
      | Inr st' \<Rightarrow> classify_links signature signer changes st' lks)"

subsection \<open>The body of the transaction loop\<close>

text \<open>The stages of lines 181-230 on the result of \<open>construct_balance_changes\<close>.\<close>

definition transfer_pairs :: "owner \<Rightarrow> balance_changes \<Rightarrow> edge list" where
  "transfer_pairs signer changes = pairs_of (token_change_owners (dict_pop changes signer) [])"

definition transaction_links :: "owner \<Rightarrow> balance_changes \<Rightarrow> edge list" where
  "transaction_links signer changes = build_links (transfer_pairs signer changes) []"

text \<open>Lines 181-252.\<close>

definition find_arbitrage ::
  "string \<Rightarrow> owner \<Rightarrow> balance_changes \<Rightarrow> main_state \<Rightarrow> error + main_state" where
  "find_arbitrage signature signer changes st =
     classify_links signature signer (dict_pop changes signer) st
       (transaction_links signer changes)"

text \<open>Lines 180-252.\<close>

definition process_transaction ::
  "string \<Rightarrow> owner \<Rightarrow> transaction_meta \<Rightarrow> main_state \<Rightarrow> error + main_state" where
  "process_transaction signature signer meta st =
     (case construct_balance_changes meta of
        Inl e \<Rightarrow> Inl e
      | Inr changes \<Rightarrow> find_arbitrage signature signer changes st)"

subsection \<open>Notions of the specification\<close>

text \<open>Reading \<open>token_change_owners[k][i]\<close>; \<open>None\<close> for a key that was never written.\<close>

definition slot_at :: "slot_table \<Rightarrow> transfer_key \<Rightarrow> nat \<Rightarrow> owner option" where
  "slot_at tbl k i =
     (case map_of tbl k of None \<Rightarrow> None | Some v \<Rightarrow> if i = 0 then fst v else snd v)"

text \<open>A swap leg in the specification's words: exactly two token entries, and the product
  of the two values is negative.\<close>

definition swap_shaped :: "(mint \<times> amount) list \<Rightarrow> bool" where
  "swap_shaped per_mint_change =
     (case per_mint_change of [e1, e2] \<Rightarrow> snd e1 * snd e2 < 0 | _ \<Rightarrow> False)"

text \<open>A key whose two slots are both set to non-empty owners, and the edge it yields.\<close>

definition complete_slots :: "slots \<Rightarrow> bool" where
  "complete_slots v \<longleftrightarrow> truthy (fst v) \<and> truthy (snd v)"

definition edge_of :: "slots \<Rightarrow> edge" where
  "edge_of v = (the (fst v), the (snd v))"

text \<open>The positive-valued and the negative-valued entries of an owner, and what the
  specification has the classifier emit for a chain: with \<open>h\<close> the one positive entry of the
  head and \<open>t\<close> the one negative entry of the tail, one record when their tokens agree and
  none when they differ.\<close>

definition positive_entries :: "(mint \<times> amount) list \<Rightarrow> (mint \<times> amount) list" where
  "positive_entries per_mint_change = filter (\<lambda>e. 0 < snd e) per_mint_change"

definition negative_entries :: "(mint \<times> amount) list \<Rightarrow> (mint \<times> amount) list" where
  "negative_entries per_mint_change = filter (\<lambda>e. snd e < 0) per_mint_change"

definition chain_record ::
  "string \<Rightarrow> owner \<Rightarrow> balance_changes \<Rightarrow> edge \<Rightarrow> arb_record list" where
  "chain_record signature signer changes lk =
     (case (map_of changes (fst lk), map_of changes (snd lk)) of
        (Some hc, Some tc) \<Rightarrow>
          (case (positive_entries hc, negative_entries tc) of
             ([h], [t]) \<Rightarrow>
               if fst h = fst t then [(signature, signer, fst h, - (snd h + snd t))] else []
           | _ \<Rightarrow> [])
      | _ \<Rightarrow> [])"

text \<open>The net change of an owner's balance of a mint, in raw units: the sum of its post
  amounts less the sum of its pre amounts, a null or empty amount counting as zero; and the
  decimal places of a mint, the last ones seen (post balances first, then pre balances).\<close>

definition raw_amount :: "token_balance \<Rightarrow> int" where
  "raw_amount b =
     (case py_int (or_zero (ui_amount (tb_uiTokenAmount b))) of Inl e \<Rightarrow> 0 | Inr n \<Rightarrow> n)"

definition total :: "token_balance list \<Rightarrow> owner \<Rightarrow> mint \<Rightarrow> int" where
  "total bs ow m = sum_list (map raw_amount (filter (\<lambda>b. tb_owner b = ow \<and> tb_mint b = m) bs))"

definition net_change :: "transaction_meta \<Rightarrow> owner \<Rightarrow> mint \<Rightarrow> int" where
  "net_change meta ow m = total (postTokenBalances meta) ow m - total (preTokenBalances meta) ow m"

definition last_decimals :: "token_balance list \<Rightarrow> int option \<Rightarrow> mint \<Rightarrow> int option" where
  "last_decimals bs start m =
     fold (\<lambda>b r. if tb_mint b = m then Some (ui_decimals (tb_uiTokenAmount b)) else r) bs start"

definition mint_decimals :: "transaction_meta \<Rightarrow> mint \<Rightarrow> int option" where
  "mint_decimals meta m = last_decimals (postTokenBalances meta @ preTokenBalances meta) None m"

text \<open>The integer accumulated for an owner and a mint, \<open>0\<close> when there is none.\<close>

definition acc_value :: "change_acc \<Rightarrow> owner \<Rightarrow> mint \<Rightarrow> int" where
  "acc_value acc ow m =
     (case map_of acc ow of None \<Rightarrow> 0 | Some d \<Rightarrow> (case map_of d m of None \<Rightarrow> 0 | Some y \<Rightarrow> y))"

subsection \<open>Concrete transactions\<close>

text \<open>The two-owner scenario of the specification, and a transaction whose signer has a
  swap-shaped balance change of its own.\<close>

definition zero_profit :: balance_changes where
  "zero_profit =
     [(''P'', [(''tokenA'', - 30), (''tokenB'', 30)]),
      (''Q'', [(''tokenB'', - 30), (''tokenA'', 30)])]"

definition with_signer :: balance_changes where
  "with_signer =
     [(''S'', [(''tokenA'', - 30), (''tokenB'', 10)]),
      (''P'', [(''tokenA'', 30), (''tokenB'', - 10)]),
      (''Q'', [(''tokenB'', 10), (''tokenA'', - 35)])]"

text \<open>Token-balance entries as the ledger service gives them: an owner whose one balance
  is the same before and after, and the raw balances behind \<open>with_signer\<close> (one decimal
  place; one amount empty, one null).\<close>

definition entry :: "owner \<Rightarrow> mint \<Rightarrow> string option \<Rightarrow> int \<Rightarrow> token_balance" where
  "entry ow m a d =
     \<lparr>tb_owner = ow, tb_mint = m, tb_uiTokenAmount = \<lparr>ui_amount = a, ui_decimals = d\<rparr>\<rparr>"

definition unchanged_balance :: transaction_meta where
  "unchanged_balance =
     \<lparr>postTokenBalances = [entry ''O'' ''M'' (Some ''5'') 0],
      preTokenBalances = [entry ''O'' ''M'' (Some ''5'') 0]\<rparr>"

definition with_signer_meta :: transaction_meta where
  "with_signer_meta =
     \<lparr>postTokenBalances =
        [entry ''S'' ''tokenA'' (Some ''700'') 1, entry ''S'' ''tokenB'' (Some ''100'') 1,
         entry ''P'' ''tokenA'' (Some ''800'') 1, entry ''P'' ''tokenB'' (Some ''300'') 1,
         entry ''Q'' ''tokenB'' (Some ''100'') 1, entry ''Q'' ''tokenA'' (Some ''550'') 1],
      preTokenBalances =
        [entry ''S'' ''tokenA'' (Some ''1000'') 1,
         entry ''P'' ''tokenA'' (Some ''500'') 1, entry ''P'' ''tokenB'' (Some ''400'') 1,
         entry ''Q'' ''tokenB'' (Some []) 1, entry ''Q'' ''tokenA'' (Some ''900'') 1,
         entry ''S'' ''tokenB'' None 1]\<rparr>"

section \<open>Properties\<close>

subsection \<open>Chain building\<close>

lemma link_edges_Cons: "link \<noteq> [] \<Longrightarrow> link_edges (x # link) = (x, hd link) # link_edges link"
  by (cases link) (simp_all add: link_edges_def)

lemma link_edges_snoc: "link \<noteq> [] \<Longrightarrow> link_edges (link @ [y]) = link_edges link @ [(last link, y)]"
proof (induction link)
  case Nil
  then show ?case by simp
next
  case (Cons a link)
  show ?case
  proof (cases "link = []")
    case True
    then show ?thesis by (simp add: link_edges_def)
  next
    case False
    then show ?thesis
      using Cons.IH by (simp add: link_edges_Cons)
  qed
qed

lemma extend_loop_eq: "extend_loop link pairs = Some (extend_link link pairs)"
proof (induction link pairs rule: extend_link_induct)
  case (step link pairs)
  obtain found link' pairs' where s: "scan_pairs link pairs pairs = (found, link', pairs')"
    by (cases "scan_pairs link pairs pairs") auto
  show ?case
  proof (cases found)
    case True
    with s step have "extend_loop link' pairs' = Some (extend_link link' pairs')"
      by simp
    with s True show ?thesis
      by (subst extend_loop.simps) (simp add: extend_link_found)
  next
    case False
    with s show ?thesis
      using scan_pairs_not_found [of link pairs pairs link' pairs']
      by (subst extend_loop.simps) (simp add: extend_link_done)
  qed
qed


lemma build_links_Nil: "build_links [] links = links"
  by (subst build_links.simps) simp

lemma build_links_step:
  "pairs \<noteq> [] \<Longrightarrow> extend_link [fst (last pairs), snd (last pairs)] (butlast pairs) = (link, pairs')
     \<Longrightarrow> build_links pairs links = build_links pairs' (links @ [(hd link, last link)])"
  by (subst build_links.simps) simp

lemma chains_Nil: "build_chains [] = []"
  by (subst build_chains.simps) simp

lemma chains_step:
  "pairs \<noteq> [] \<Longrightarrow> extend_link [fst (last pairs), snd (last pairs)] (butlast pairs) = (link, pairs')
     \<Longrightarrow> build_chains pairs = link # build_chains pairs'"
  by (subst build_chains.simps) simp

lemma chains_induct [case_names Nil step]:
  assumes "P []"
    and "\<And>pairs link pairs'. pairs \<noteq> [] \<Longrightarrow>
           extend_link [fst (last pairs), snd (last pairs)] (butlast pairs) = (link, pairs') \<Longrightarrow>
           P pairs' \<Longrightarrow> P pairs"
  shows "P pairs"
proof (induction "length pairs" arbitrary: pairs rule: less_induct)
  case less
  show ?case
  proof (cases "pairs = []")
    case True
    with assms(1) show ?thesis by simp
  next
    case False
    obtain link pairs' where e:
      "extend_link [fst (last pairs), snd (last pairs)] (butlast pairs) = (link, pairs')"
      by (cases "extend_link [fst (last pairs), snd (last pairs)] (butlast pairs)") auto
    have "length pairs' \<le> length (butlast pairs)"
      using extend_link_length [of "[fst (last pairs), snd (last pairs)]" "butlast pairs"] e
      by simp
    with False have "length pairs' < length pairs"
      by (cases pairs rule: rev_cases) auto
    then have "P pairs'"
      by (rule less)
    with False e show ?thesis
      by (rule assms(2))
  qed
qed


lemma build_loop_eq: "build_loop pairs links = Some (build_links pairs links)"
proof (induction pairs arbitrary: links rule: chains_induct)
  case Nil
  show ?case
    by (subst build_loop.simps) (simp add: build_links_Nil)
next
  case (step pairs link pairs')
  have "build_loop pairs links = build_loop pairs' (links @ [(hd link, last link)])"
    using step(1,2) by (subst build_loop.simps) (simp add: extend_loop_eq)
  also have "\<dots> = Some (build_links pairs' (links @ [(hd link, last link)]))"
    by (rule step(3))
  also have "build_links pairs' (links @ [(hd link, last link)]) = build_links pairs links"
    using step(1,2) by (simp add: build_links_step)
  finally show ?case .
qed

lemma build_links_chains:
  "build_links pairs links = links @ map (\<lambda>c. (hd c, last c)) (build_chains pairs)"
proof (induction pairs arbitrary: links rule: chains_induct)
  case Nil
  show ?case
    by (simp add: build_links_Nil chains_Nil)
next
  case (step pairs link pairs')
  then show ?case
    by (simp add: build_links_step [of pairs link pairs'] chains_step [of pairs link pairs'])
qed

text \<open>What one run of the inner loop keeps: the edges of the link together with the edges
  still on the work-list.\<close>

lemma extend_link_edges:
  "link \<noteq> [] \<Longrightarrow> extend_link link pairs = (link', pairs') \<Longrightarrow>
     link' \<noteq> [] \<and> mset (link_edges link') + mset pairs' = mset (link_edges link) + mset pairs"
proof (induction link pairs rule: extend_link_induct)
  case (step link pairs)
  obtain found l1 p1 where s: "scan_pairs link pairs pairs = (found, l1, p1)"
    by (cases "scan_pairs link pairs pairs") auto
  show ?case
  proof (cases found)
    case False
    with s step.prems show ?thesis
      by (simp add: extend_link_done)
  next
    case True
    with s obtain l where l: "l \<in> set pairs" "p1 = remove1 l pairs"
      "fst l = last link \<and> l1 = link @ [snd l] \<or> snd l = hd link \<and> l1 = fst l # link"
      using scan_pairs_found [of link pairs pairs l1 p1] by auto
    from l(3) step.prems(1) have ne: "l1 \<noteq> []" and
      e1: "mset (link_edges l1) = mset (link_edges link) + {#l#}"
      by (cases l; auto simp: link_edges_Cons link_edges_snoc)+
    from l(1,2) have e2: "mset p1 + {#l#} = mset pairs"
      by simp
    from s True step.prems(2) have "extend_link l1 p1 = (link', pairs')"
      by (simp add: extend_link_found)
    with step.IH [of l1 p1] s True ne
    have "link' \<noteq> [] \<and> mset (link_edges link') + mset pairs' = mset (link_edges l1) + mset p1"
      by simp
    with e1 e2 show ?thesis
      by (metis add.assoc add.commute)
  qed
qed


lemma chains_cover:
  "mset (concat (map link_edges (build_chains pairs))) = mset pairs \<and> [] \<notin> set (build_chains pairs)"
proof (induction pairs rule: chains_induct)
  case Nil
  show ?case by (simp add: chains_Nil)
next
  case (step pairs link pairs')
  from step(2) have "link \<noteq> [] \<and> mset (link_edges link) + mset pairs' =
      mset (link_edges [fst (last pairs), snd (last pairs)]) + mset (butlast pairs)"
    by (intro extend_link_edges) simp_all
  moreover have "mset (link_edges [fst (last pairs), snd (last pairs)]) + mset (butlast pairs) = mset pairs"
    using step(1) by (cases pairs rule: rev_cases) (simp_all add: link_edges_def)
  ultimately show ?case
    using step(3) by (auto simp: chains_step [OF step(1,2)])
qed

lemma length_link_edges: "length (link_edges link) = length link - 1"
  by (simp add: link_edges_def)

lemma extend_link_ends:
  "link \<noteq> [] \<Longrightarrow> hd link \<in> fst ` S \<Longrightarrow> last link \<in> snd ` S \<Longrightarrow> set pairs \<subseteq> S \<Longrightarrow>
     extend_link link pairs = (link', pairs') \<Longrightarrow>
     hd link' \<in> fst ` S \<and> last link' \<in> snd ` S \<and> set pairs' \<subseteq> S"
proof (induction link pairs rule: extend_link_induct)
  case (step link pairs)
  obtain found l1 p1 where s: "scan_pairs link pairs pairs = (found, l1, p1)"
    by (cases "scan_pairs link pairs pairs") auto
  show ?case
  proof (cases found)
    case False
    with s step.prems show ?thesis
      by (simp add: extend_link_done)
  next
    case True
    with s obtain l where l: "l \<in> set pairs" "p1 = remove1 l pairs"
      "fst l = last link \<and> l1 = link @ [snd l] \<or> snd l = hd link \<and> l1 = fst l # link"
      using scan_pairs_found [of link pairs pairs l1 p1] by auto
    from l(1) step.prems(4) have lS: "l \<in> S"
      by auto
    from lS have "fst l \<in> fst ` S" "snd l \<in> snd ` S"
      by simp_all
    with l(3) step.prems(1,2,3) have 1: "l1 \<noteq> []" "hd l1 \<in> fst ` S" "last l1 \<in> snd ` S"
      by (elim disjE conjE; simp)+
    from l(2) step.prems(4) have 2: "set p1 \<subseteq> S"
      using set_remove1_subset [of l pairs] by auto
    from s True step.prems(5) have "extend_link l1 p1 = (link', pairs')"
      by (simp add: extend_link_found)
    with step.IH [of l1 p1] s True 1 2 show ?thesis
      by simp
  qed
qed

lemma chains_ends:
  "set pairs \<subseteq> S \<Longrightarrow> \<forall>c \<in> set (build_chains pairs). hd c \<in> fst ` S \<and> last c \<in> snd ` S"
proof (induction pairs rule: chains_induct)
  case Nil
  show ?case by (simp add: chains_Nil)
next
  case (step pairs link pairs')
  from step(1) step.prems have "last pairs \<in> S"
    using last_in_set [of pairs] by auto
  moreover from step.prems have "set (butlast pairs) \<subseteq> S"
    using in_set_butlastD [of _ pairs] by auto
  ultimately have "hd link \<in> fst ` S \<and> last link \<in> snd ` S \<and> set pairs' \<subseteq> S"
    using step(2)
    by (intro extend_link_ends [where link = "[fst (last pairs), snd (last pairs)]"
          and pairs = "butlast pairs"]) simp_all
  with step(3) show ?case
    by (simp add: chains_step [OF step(1,2)])
qed

lemma links_ends:
  "lk \<in> set (build_links pairs []) \<Longrightarrow> fst lk \<in> fst ` set pairs \<and> snd lk \<in> snd ` set pairs"
  using chains_ends [of pairs "set pairs"] by (auto simp: build_links_chains)

text \<open>
  C9. The chain builder ends on every finite work-list, self-loop edges included: the outer
  loop \<open>while pairs\<close> and the inner loop \<open>while True\<close> both return, a scan that finds an
  edge leaves a work-list shorter by one, a scan that finds none ends the inner loop, and
  the inner loop never lengthens the work-list.
\<close>

theorem chain_builder_terminates:
  "(\<exists>out. build_loop pairs links = Some out) \<and>
   (\<exists>r. extend_loop link pairs = Some r \<and> length (snd r) \<le> length pairs) \<and>
   (\<forall>link' pairs'. scan_pairs link pairs pairs = (True, link', pairs')
      \<longrightarrow> Suc (length pairs') = length pairs) \<and>
   (\<forall>link' pairs'. scan_pairs link pairs pairs = (False, link', pairs')
      \<longrightarrow> extend_loop link pairs = Some (link, pairs))"
proof (intro conjI allI impI)
  show "\<exists>out. build_loop pairs links = Some out"
    by (simp add: build_loop_eq)
  show "\<exists>r. extend_loop link pairs = Some r \<and> length (snd r) \<le> length pairs"
    by (simp add: extend_loop_eq extend_link_length)
next
  fix link' pairs'
  assume "scan_pairs link pairs pairs = (True, link', pairs')"
  then show "Suc (length pairs') = length pairs"
    by (rule scan_pairs_shrinks) simp
next
  fix link' pairs'
  assume "scan_pairs link pairs pairs = (False, link', pairs')"
  then show "extend_loop link pairs = Some (link, pairs)"
    by (simp add: extend_loop_eq extend_link_done)
qed

theorem chain_builder_terminates_witness:
  "scan_pairs [''a'', ''a''] [(''a'', ''b'')] [(''a'', ''b'')] = (True, [''a'', ''a'', ''b''], []) \<and>
   Suc (length ([] :: edge list)) = length [(''a'', ''b'')] \<and>
   scan_pairs [''a'', ''a'', ''b''] [] [] = (False, [''a'', ''a'', ''b''], []) \<and>
   extend_loop [''a'', ''a'', ''b''] [] = Some ([''a'', ''a'', ''b''], []) \<and>
   build_loop [(''a'', ''b''), (''a'', ''a'')] [] = Some [(''a'', ''b'')]"
  using chain_builder_terminates [of "[(''a'', ''b'')]" "[]" "[''a'', ''a'']"]
    chain_builder_terminates [of "[]" "[]" "[''a'', ''a'', ''b'']"]
    chain_builder_terminates [of "[(''a'', ''b''), (''a'', ''a'')]" "[]" "[''a'', ''a'']"]
  by (simp add: build_loop_eq build_links_step [of _ "[''a'', ''a'', ''b'']" "[]"]
      build_links_Nil extend_link_found [of _ _ "[''a'', ''a'', ''b'']" "[]"]
      extend_link_done [of _ _ "[''a'', ''a'', ''b'']" "[]"])

text \<open>
  C4. Every edge of the work-list is used exactly once: the recorded links are the two ends
  of the finished chains, the edges of all finished chains together are, as a multiset, the
  edges of the work-list, and the numbers of edges of the chains add up to the number of
  edges given.
\<close>

theorem edge_coverage:
  "build_links pairs [] = map (\<lambda>link. (hd link, last link)) (build_chains pairs) \<and>
   mset (concat (map link_edges (build_chains pairs))) = mset pairs \<and>
   (\<Sum>link \<leftarrow> build_chains pairs. length link - 1) = length pairs"
proof -
  have "length (concat (map link_edges (build_chains pairs))) = length pairs"
    using chains_cover [of pairs] by (metis size_mset)
  then have "(\<Sum>link \<leftarrow> build_chains pairs. length link - 1) = length pairs"
    by (simp add: length_concat comp_def length_link_edges)
  then show ?thesis
    using chains_cover [of pairs] build_links_chains [of pairs "[]"] by simp
qed

subsection \<open>Leg detection and matching\<close>

lemma map_of_dict_set: "map_of (dict_set d k v) = (map_of d)(k \<mapsto> v)"
  by (induction d) (auto simp: fun_eq_iff)

lemma keys_dict_set:
  "map fst (dict_set d k v) = (if k \<in> fst ` set d then map fst d else map fst d @ [k])"
  by (induction d k v rule: dict_set.induct) (auto split: if_splits)

lemma distinct_dict_set: "distinct (map fst d) \<Longrightarrow> distinct (map fst (dict_set d k v))"
  by (simp add: keys_dict_set)

lemma set_dict_set: "set (dict_set d k v) \<subseteq> insert (k, v) (set d)"
  by (induction d k v rule: dict_set.induct) (auto split: if_splits)

lemma slot_at_assign:
  "slot_at (slot_assign tbl k i ow) k' i' =
     (if k' = k \<and> (i' = 0 \<longleftrightarrow> i = 0) then Some ow else slot_at tbl k' i')"
  by (auto simp: slot_at_def slot_assign_def map_of_dict_set Let_def split: option.splits)

lemma distinct_slot_assign:
  "distinct (map fst tbl) \<Longrightarrow> distinct (map fst (slot_assign tbl k i ow))"
  by (simp add: slot_assign_def Let_def distinct_dict_set)

lemma is_leg_swap_shaped: "is_leg pmc \<longleftrightarrow> swap_shaped pmc"
proof (cases pmc)
  case Nil
  then show ?thesis by (simp add: is_leg_def swap_shaped_def)
next
  case (Cons e1 es)
  note c1 = this
  show ?thesis
  proof (cases es)
    case Nil
    with c1 show ?thesis by (simp add: is_leg_def swap_shaped_def)
  next
    case (Cons e2 es')
    with c1 show ?thesis
      by (cases es') (simp_all add: is_leg_def swap_shaped_def)
  qed
qed

lemma swap_shapedE:
  assumes "swap_shaped pmc"
  obtains m1 c1 m2 c2 where "pmc = [(m1, c1), (m2, c2)]"
    and "c1 < 0 \<and> 0 < c2 \<or> 0 < c1 \<and> c2 < 0"
proof -
  from assms obtain e1 e2 where p: "pmc = [e1, e2]" and n: "snd e1 * snd e2 < 0"
    by (auto simp: swap_shaped_def split: list.splits)
  from n have "snd e1 < 0 \<and> 0 < snd e2 \<or> 0 < snd e1 \<and> snd e2 < 0"
    by (auto simp: mult_less_0_iff)
  with p show thesis
    by (intro that [of "fst e1" "snd e1" "fst e2" "snd e2"]) auto
qed


lemma record_leg_origin:
  "slot_at (record_leg ow es tbl) k i = Some x \<Longrightarrow>
     slot_at tbl k i = Some x \<or>
     (x = ow \<and> (\<exists>c. (fst k, c) \<in> set es \<and> snd k = \<bar>c\<bar> \<and> (i = 0 \<longleftrightarrow> c < 0)))"
proof (induction es arbitrary: tbl)
  case Nil
  then show ?case by simp
next
  case (Cons e es)
  obtain m c where e: "e = (m, c)"
    by (cases e)
  let ?tbl = "slot_assign tbl (m, \<bar>c\<bar>) (if c < 0 then 0 else 1) ow"
  from Cons.prems e have "slot_at (record_leg ow es ?tbl) k i = Some x"
    by simp
  from Cons.IH [OF this] show ?case
  proof
    assume a: "slot_at ?tbl k i = Some x"
    show ?thesis
    proof (cases "k = (m, \<bar>c\<bar>) \<and> (i = 0 \<longleftrightarrow> c < 0)")
      case True
      with a have "x = ow"
        by (simp add: slot_at_assign split: if_splits)
      moreover from True e have "(fst k, c) \<in> set (e # es) \<and> snd k = \<bar>c\<bar> \<and> (i = 0 \<longleftrightarrow> c < 0)"
        by simp
      ultimately show ?thesis
        by blast
    next
      case False
      with a have "slot_at tbl k i = Some x"
        by (simp add: slot_at_assign split: if_splits)
      then show ?thesis ..
    qed
  next
    assume "x = ow \<and> (\<exists>c. (fst k, c) \<in> set es \<and> snd k = \<bar>c\<bar> \<and> (i = 0 \<longleftrightarrow> c < 0))"
    then show ?thesis
      by auto
  qed
qed

lemma distinct_record_leg:
  "distinct (map fst tbl) \<Longrightarrow> distinct (map fst (record_leg ow es tbl))"
  by (induction es arbitrary: tbl) (simp_all add: distinct_slot_assign)

lemma token_change_owners_origin:
  "slot_at (token_change_owners es tbl) k i = Some x \<Longrightarrow>
     slot_at tbl k i = Some x \<or>
     (\<exists>pmc c. (x, pmc) \<in> set es \<and> swap_shaped pmc \<and> (fst k, c) \<in> set pmc \<and> snd k = \<bar>c\<bar>
         \<and> (i = 0 \<longleftrightarrow> c < 0))"
proof (induction es arbitrary: tbl)
  case Nil
  then show ?case by simp
next
  case (Cons e es)
  show ?case
  proof (cases "is_leg (snd e)")
    case False
    with Cons.prems have "slot_at (token_change_owners es tbl) k i = Some x"
      by simp
    from Cons.IH [OF this] show ?thesis
      by auto
  next
    case True
    with Cons.prems have "slot_at (token_change_owners es (record_leg (fst e) (snd e) tbl)) k i = Some x"
      by simp
    from Cons.IH [OF this] show ?thesis
    proof
      assume "slot_at (record_leg (fst e) (snd e) tbl) k i = Some x"
      from record_leg_origin [OF this] True show ?thesis
        by (cases e) (auto simp: is_leg_swap_shaped)
    next
      assume "\<exists>pmc c. (x, pmc) \<in> set es \<and> swap_shaped pmc \<and> (fst k, c) \<in> set pmc \<and> snd k = \<bar>c\<bar>
         \<and> (i = 0 \<longleftrightarrow> c < 0)"
      then show ?thesis by auto
    qed
  qed
qed

lemma distinct_token_change_owners:
  "distinct (map fst tbl) \<Longrightarrow> distinct (map fst (token_change_owners es tbl))"
  by (induction es arbitrary: tbl) (simp_all add: distinct_record_leg)

lemma pairs_of_filter:
  "pairs_of tbl = map (\<lambda>e. edge_of (snd e)) (filter (\<lambda>e. complete_slots (snd e)) tbl)"
  by (induction tbl rule: pairs_of.induct) (simp_all add: complete_slots_def edge_of_def)

lemma pairs_of_slots:
  assumes "distinct (map fst tbl)" and "(s, d) \<in> set (pairs_of tbl)"
  shows "\<exists>k. slot_at tbl k 0 = Some s \<and> slot_at tbl k 1 = Some d \<and> s \<noteq> [] \<and> d \<noteq> []"
proof -
  from assms(2) obtain k v where kv: "(k, v) \<in> set tbl" "complete_slots v" "edge_of v = (s, d)"
    by (auto simp: pairs_of_filter)
  from assms(1) kv(1) have "map_of tbl k = Some v"
    by simp
  moreover from kv(2,3) have "fst v = Some s" "snd v = Some d" "s \<noteq> []" "d \<noteq> []"
    by (cases v; cases "fst v"; cases "snd v"; auto simp: complete_slots_def edge_of_def)+
  ultimately show ?thesis
    by (intro exI [of _ k]) (simp add: slot_at_def)
qed


lemma slot_at_Nil: "slot_at [] k i = None"
  by (simp add: slot_at_def)

lemma pairs_origin:
  assumes "(s, d) \<in> set (pairs_of (token_change_owners changes []))"
  shows "\<exists>m a ps pd. 0 < a \<and> s \<noteq> [] \<and> d \<noteq> [] \<and>
           (s, ps) \<in> set changes \<and> swap_shaped ps \<and> (m, - a) \<in> set ps \<and>
           (d, pd) \<in> set changes \<and> swap_shaped pd \<and> (m, a) \<in> set pd"
proof -
  let ?tbl = "token_change_owners changes []"
  have dist: "distinct (map fst ?tbl)"
    by (rule distinct_token_change_owners) simp
  from pairs_of_slots [OF dist assms] obtain k where
    k: "slot_at ?tbl k 0 = Some s" "slot_at ?tbl k 1 = Some d" "s \<noteq> []" "d \<noteq> []"
    by blast
  from token_change_owners_origin [OF k(1)] obtain ps cs where
    ps: "(s, ps) \<in> set changes" "swap_shaped ps" "(fst k, cs) \<in> set ps" "snd k = \<bar>cs\<bar>" "cs < 0"
    by (auto simp: slot_at_Nil)
  from token_change_owners_origin [OF k(2)] obtain pd cd where
    pd: "(d, pd) \<in> set changes" "swap_shaped pd" "(fst k, cd) \<in> set pd" "snd k = \<bar>cd\<bar>" "\<not> cd < 0"
    by (auto simp: slot_at_Nil)
  from ps(4,5) have "cs = - snd k" "0 < snd k"
    by auto
  with ps(3) have 1: "(fst k, - snd k) \<in> set ps" "0 < snd k"
    by auto
  from pd(4,5) have "cd = snd k"
    by auto
  with pd(3) have 2: "(fst k, snd k) \<in> set pd"
    by auto
  from 1 2 ps(1,2) pd(1,2) k(3,4) show ?thesis
    by blast
qed


lemma with_signer_table:
  "token_change_owners (dict_pop with_signer ''S'') [] =
     [((''tokenA'', 30), (None, Some ''P'')), ((''tokenB'', 10), (Some ''P'', Some ''Q'')),
      ((''tokenA'', 35), (Some ''Q'', None))]"
  by (simp add: with_signer_def dict_pop_def is_leg_def slot_assign_def)

lemma with_signer_links: "build_links [(''P'', ''Q'')] [] = [(''P'', ''Q'')]"
  by (simp add: build_links_step [of _ "[''P'', ''Q'']" "[]"] build_links_Nil
      extend_link_done [of _ _ "[''P'', ''Q'']" "[]"])





subsection \<open>The signer\<close>

lemma dict_pop_keys: "k \<notin> fst ` set (dict_pop d k)"
  by (auto simp: dict_pop_def)

lemma dict_pop_subset: "set (dict_pop d k) \<subseteq> set d"
  by (auto simp: dict_pop_def)

text \<open>
  C7. After \<open>pop(signer)\<close> the signer is no owner of the balance changes, is in no slot of
  the table, is no end of any edge in \<open>pairs\<close> and is neither head nor tail of any link.
\<close>

theorem signer_excluded:
  "signer \<notin> fst ` set (dict_pop changes signer) \<and>
   (\<forall>k i. slot_at (token_change_owners (dict_pop changes signer) []) k i \<noteq> Some signer) \<and>
   (\<forall>e \<in> set (transfer_pairs signer changes). fst e \<noteq> signer \<and> snd e \<noteq> signer) \<and>
   (\<forall>lk \<in> set (transaction_links signer changes). fst lk \<noteq> signer \<and> snd lk \<noteq> signer)"
proof -
  let ?d = "dict_pop changes signer"
  have a: "signer \<notin> fst ` set ?d"
    by (rule dict_pop_keys)
  have b: "slot_at (token_change_owners ?d []) k i \<noteq> Some signer" for k i
  proof
    assume "slot_at (token_change_owners ?d []) k i = Some signer"
    from token_change_owners_origin [OF this] obtain pmc where "(signer, pmc) \<in> set ?d"
      by (auto simp: slot_at_Nil)
    with a show False
      by force
  qed
  have c: "fst e \<noteq> signer \<and> snd e \<noteq> signer" if "e \<in> set (transfer_pairs signer changes)" for e
  proof -
    from that have "(fst e, snd e) \<in> set (pairs_of (token_change_owners ?d []))"
      by (simp add: transfer_pairs_def)
    from pairs_origin [OF this] obtain ps pd where "(fst e, ps) \<in> set ?d" "(snd e, pd) \<in> set ?d"
      by blast
    with a show ?thesis
      by force
  qed
  have d: "fst lk \<noteq> signer \<and> snd lk \<noteq> signer" if "lk \<in> set (transaction_links signer changes)" for lk
  proof -
    from that have "fst lk \<in> fst ` set (transfer_pairs signer changes) \<and>
        snd lk \<in> snd ` set (transfer_pairs signer changes)"
      unfolding transaction_links_def by (rule links_ends)
    then obtain e1 e2 where "e1 \<in> set (transfer_pairs signer changes)" "fst e1 = fst lk"
      "e2 \<in> set (transfer_pairs signer changes)" "snd e2 = snd lk"
      by (auto simp: image_iff)
    with c [of e1] c [of e2] show ?thesis
      by simp
  qed
  from a b c d show ?thesis
    by blast
qed


theorem signer_excluded_witness:
  "''S'' \<in> fst ` set with_signer \<and>
   transfer_pairs ''S'' with_signer = [(''P'', ''Q'')] \<and>
   transaction_links ''S'' with_signer = [(''P'', ''Q'')] \<and>
   ''P'' \<noteq> ''S'' \<and> ''Q'' \<noteq> ''S''"
  using signer_excluded [of "''S''" with_signer]
  by (simp add: transfer_pairs_def transaction_links_def with_signer_table with_signer_links,
      simp add: with_signer_def)

subsection \<open>Classification\<close>

lemma swap_shaped_entries:
  assumes "swap_shaped pmc"
  shows "\<exists>p n. positive_entries pmc = [p] \<and> negative_entries pmc = [n] \<and>
           for_break (\<lambda>e. 0 < snd e) pmc cur1 = Some p \<and>
           for_break (\<lambda>e. snd e < 0) pmc cur2 = Some n \<and>
           p \<in> set pmc \<and> n \<in> set pmc \<and> (distinct (map fst pmc) \<longrightarrow> fst p \<noteq> fst n)"
proof -
  from assms obtain m1 c1 m2 c2 where p: "pmc = [(m1, c1), (m2, c2)]"
    and s: "c1 < 0 \<and> 0 < c2 \<or> 0 < c1 \<and> c2 < 0"
    by (rule swap_shapedE)
  from s show ?thesis
  proof
    assume "c1 < 0 \<and> 0 < c2"
    with p show ?thesis
      by (intro exI [of _ "(m2, c2)"] exI [of _ "(m1, c1)"])
        (auto simp: positive_entries_def negative_entries_def)
  next
    assume "0 < c1 \<and> c2 < 0"
    with p show ?thesis
      by (intro exI [of _ "(m1, c1)"] exI [of _ "(m2, c2)"])
        (auto simp: positive_entries_def negative_entries_def)
  qed
qed

lemma map_of_dict_pop:
  "map_of (dict_pop d k) k' = (if k' = k then None else map_of d k')"
  by (induction d) (auto simp: dict_pop_def)

lemma distinct_dict_pop: "distinct (map fst d) \<Longrightarrow> distinct (map fst (dict_pop d k))"
  by (simp add: dict_pop_def distinct_map_filter)

text \<open>Every end of a link is an owner that the guard admitted.\<close>

lemma link_owners:
  assumes "distinct (map fst changes)" and "lk \<in> set (transaction_links signer changes)"
  shows "\<exists>hc tc. map_of (dict_pop changes signer) (fst lk) = Some hc \<and> swap_shaped hc \<and>
           map_of (dict_pop changes signer) (snd lk) = Some tc \<and> swap_shaped tc"
proof -
  let ?d = "dict_pop changes signer"
  have dist: "distinct (map fst ?d)"
    using assms(1) by (rule distinct_dict_pop)
  from assms(2) have "fst lk \<in> fst ` set (transfer_pairs signer changes) \<and>
      snd lk \<in> snd ` set (transfer_pairs signer changes)"
    unfolding transaction_links_def by (rule links_ends)
  then obtain e1 e2 where e: "e1 \<in> set (transfer_pairs signer changes)" "fst e1 = fst lk"
      "e2 \<in> set (transfer_pairs signer changes)" "snd e2 = snd lk"
    by (auto simp: image_iff)
  from e(1) have "(fst e1, snd e1) \<in> set (pairs_of (token_change_owners ?d []))"
    by (simp add: transfer_pairs_def)
  from pairs_origin [OF this] e(2) obtain hc where hc: "(fst lk, hc) \<in> set ?d" "swap_shaped hc"
    by auto
  from e(3) have "(fst e2, snd e2) \<in> set (pairs_of (token_change_owners ?d []))"
    by (simp add: transfer_pairs_def)
  from pairs_origin [OF this] e(4) obtain tc where tc: "(snd lk, tc) \<in> set ?d" "swap_shaped tc"
    by auto
  from dist hc(1) tc(1) have "map_of ?d (fst lk) = Some hc" "map_of ?d (snd lk) = Some tc"
    by simp_all
  with hc(2) tc(2) show ?thesis
    by blast
qed

lemma classify_link_spec:
  assumes "map_of changes (fst lk) = Some hc" and "positive_entries hc = [h]"
    and "for_break (\<lambda>e. 0 < snd e) hc (first_entry st) = Some h"
    and "map_of changes (snd lk) = Some tc" and "negative_entries tc = [t]"
    and "for_break (\<lambda>e. snd e < 0) tc (last_entry st) = Some t"
  shows "classify_link signature signer changes st lk =
           Inr \<lparr>records = records st @ chain_record signature signer changes lk,
                first_entry = Some h, last_entry = Some t\<rparr>"
  using assms by (simp add: classify_link_def chain_record_def)


lemma classify_links_spec:
  assumes "\<forall>lk \<in> set lks. \<exists>hc tc. map_of changes (fst lk) = Some hc \<and> swap_shaped hc \<and>
             map_of changes (snd lk) = Some tc \<and> swap_shaped tc"
  shows "\<exists>st'. classify_links signature signer changes st lks = Inr st' \<and>
           records st' = records st @ concat (map (chain_record signature signer changes) lks)"
  using assms
proof (induction lks arbitrary: st)
  case Nil
  then show ?case by simp
next
  case (Cons lk lks)
  from Cons.prems obtain hc tc where o: "map_of changes (fst lk) = Some hc" "swap_shaped hc"
      "map_of changes (snd lk) = Some tc" "swap_shaped tc"
    by auto
  from swap_shaped_entries [OF o(2), of "first_entry st"] obtain h where
    h: "positive_entries hc = [h]" "for_break (\<lambda>e. 0 < snd e) hc (first_entry st) = Some h"
    by blast
  from swap_shaped_entries [OF o(4), of _ "last_entry st"] obtain t where
    t: "negative_entries tc = [t]" "for_break (\<lambda>e. snd e < 0) tc (last_entry st) = Some t"
    by blast
  let ?st = "\<lparr>records = records st @ chain_record signature signer changes lk,
                first_entry = Some h, last_entry = Some t\<rparr>"
  have 1: "classify_link signature signer changes st lk = Inr ?st"
    using o(1) h o(3) t by (rule classify_link_spec)
  from Cons.prems have "\<forall>lk \<in> set lks. \<exists>hc tc. map_of changes (fst lk) = Some hc \<and> swap_shaped hc \<and>
             map_of changes (snd lk) = Some tc \<and> swap_shaped tc"
    by simp
  from Cons.IH [OF this, of ?st] 1 show ?case
    by auto
qed

lemma wf_dict_pop: "wf_changes d \<Longrightarrow> wf_changes (dict_pop d k)"
  by (auto simp: wf_changes_def dict_pop_def distinct_map_filter)

lemma two_owner_links: "P \<noteq> Q \<Longrightarrow> build_chains [(P, Q), (Q, P)] = [[Q, P, Q]]"
  by (simp add: chains_step [of _ "[Q, P, Q]" "[]"] chains_Nil
      extend_link_found [of _ _ "[Q, P, Q]" "[]"] extend_link_done [of _ _ "[Q, P, Q]" "[]"])

lemma two_owner_run:
  assumes "P \<noteq> Q" and "P \<noteq> S" and "Q \<noteq> S" and "P \<noteq> []" and "Q \<noteq> []"
    and "A \<noteq> B" and "0 < a"
  shows "token_change_owners (dict_pop [(P, [(A, - a), (B, a)]), (Q, [(B, - a), (A, a)])] S) [] =
           [((A, a), (Some P, Some Q)), ((B, a), (Some Q, Some P))] \<and>
         transfer_pairs S [(P, [(A, - a), (B, a)]), (Q, [(B, - a), (A, a)])] = [(P, Q), (Q, P)] \<and>
         build_chains [(P, Q), (Q, P)] = [[Q, P, Q]] \<and>
         transaction_links S [(P, [(A, - a), (B, a)]), (Q, [(B, - a), (A, a)])] = [(Q, Q)] \<and>
         find_arbitrage signature S [(P, [(A, - a), (B, a)]), (Q, [(B, - a), (A, a)])] st =
           Inr \<lparr>records = records st, first_entry = Some (A, a), last_entry = Some (B, - a)\<rparr>"
proof -
  let ?c = "[(P, [(A, - a), (B, a)]), (Q, [(B, - a), (A, a)])]"
  from assms(2,3) have pop: "dict_pop ?c S = ?c"
    by (simp add: dict_pop_def)
  from assms(7) have leg: "is_leg [(A, - a), (B, a)]" "is_leg [(B, - a), (A, a)]"
    by (simp_all add: is_leg_def mult_less_0_iff)
  from assms(6,7) have tbl: "token_change_owners ?c [] = [((A, a), (Some P, Some Q)), ((B, a), (Some Q, Some P))]"
    using leg by (auto simp: slot_assign_def)
  have 1: "transfer_pairs S ?c = [(P, Q), (Q, P)]"
    unfolding transfer_pairs_def pop tbl using assms(4,5) by simp
  have 2: "build_chains [(P, Q), (Q, P)] = [[Q, P, Q]]"
    using assms(1) by (rule two_owner_links)
  have 3: "transaction_links S ?c = [(Q, Q)]"
    unfolding transaction_links_def 1 build_links_chains 2 by simp
  have 4: "find_arbitrage signature S ?c st =
      Inr \<lparr>records = records st, first_entry = Some (A, a), last_entry = Some (B, - a)\<rparr>"
    unfolding find_arbitrage_def 3 pop using assms(1,6,7) by (simp add: classify_link_def)
  from tbl 1 2 3 4 show ?thesis
    unfolding pop by simp
qed

lemma with_signer_pairs: "transfer_pairs ''S'' with_signer = [(''P'', ''Q'')]"
  by (simp add: transfer_pairs_def with_signer_table)

lemma with_signer_transaction_links: "transaction_links ''S'' with_signer = [(''P'', ''Q'')]"
  by (simp add: transaction_links_def with_signer_pairs with_signer_links)

lemma with_signer_run:
  "find_arbitrage ''sig'' ''S'' with_signer \<lparr>records = [], first_entry = None, last_entry = None\<rparr> =
     Inr \<lparr>records = [(''sig'', ''S'', ''tokenA'', 5)],
          first_entry = Some (''tokenA'', 30), last_entry = Some (''tokenA'', - 35)\<rparr>"
  unfolding find_arbitrage_def with_signer_transaction_links
  by (simp add: with_signer_def dict_pop_def classify_link_def)

text \<open>
  C2. Every end of a link is an owner with exactly one positive and exactly one negative
  entry. For a link with head entry \<open>h\<close> (the head's positive entry) and tail entry \<open>t\<close> (the
  tail's negative entry) the classifier appends the one record
  \<open>(signature, signer, token of h, - (value of h + value of t))\<close> when the two tokens are
  equal and appends nothing when they differ; over the whole transaction the records
  appended are those of the links, in link order.
\<close>

theorem arbitrage_classification:
  assumes "distinct (map fst changes)"
  shows "(\<forall>lk \<in> set (transaction_links signer changes).
            \<exists>hc tc h t.
              map_of (dict_pop changes signer) (fst lk) = Some hc \<and> positive_entries hc = [h] \<and>
              map_of (dict_pop changes signer) (snd lk) = Some tc \<and> negative_entries tc = [t] \<and>
              classify_link signature signer (dict_pop changes signer) st lk =
                Inr \<lparr>records =
                       records st @
                       (if fst h = fst t then [(signature, signer, fst h, - (snd h + snd t))]
                        else []),
                     first_entry = Some h, last_entry = Some t\<rparr>) \<and>
         (\<exists>st'. find_arbitrage signature signer changes st = Inr st' \<and>
            records st' =
              records st @
              concat (map (chain_record signature signer (dict_pop changes signer))
                        (transaction_links signer changes)))"
proof (intro conjI ballI)
  fix lk
  assume "lk \<in> set (transaction_links signer changes)"
  from link_owners [OF assms this] obtain hc tc where
    o: "map_of (dict_pop changes signer) (fst lk) = Some hc" "swap_shaped hc"
       "map_of (dict_pop changes signer) (snd lk) = Some tc" "swap_shaped tc"
    by blast
  from swap_shaped_entries [OF o(2), of "first_entry st"] obtain h where
    h: "positive_entries hc = [h]" "for_break (\<lambda>e. 0 < snd e) hc (first_entry st) = Some h"
    by blast
  from swap_shaped_entries [OF o(4), of _ "last_entry st"] obtain t where
    t: "negative_entries tc = [t]" "for_break (\<lambda>e. snd e < 0) tc (last_entry st) = Some t"
    by blast
  have "classify_link signature signer (dict_pop changes signer) st lk =
      Inr \<lparr>records = records st @ chain_record signature signer (dict_pop changes signer) lk,
           first_entry = Some h, last_entry = Some t\<rparr>"
    using o(1) h o(3) t by (rule classify_link_spec)
  moreover have "chain_record signature signer (dict_pop changes signer) lk =
      (if fst h = fst t then [(signature, signer, fst h, - (snd h + snd t))] else [])"
    using o(1,3) h(1) t(1) by (simp add: chain_record_def)
  ultimately show "\<exists>hc tc h t.
              map_of (dict_pop changes signer) (fst lk) = Some hc \<and> positive_entries hc = [h] \<and>
              map_of (dict_pop changes signer) (snd lk) = Some tc \<and> negative_entries tc = [t] \<and>
              classify_link signature signer (dict_pop changes signer) st lk =
                Inr \<lparr>records =
                       records st @
                       (if fst h = fst t then [(signature, signer, fst h, - (snd h + snd t))]
                        else []),
                     first_entry = Some h, last_entry = Some t\<rparr>"
    using o(1,3) h(1) t(1)
    by (intro exI [of _ hc] exI [of _ tc] exI [of _ h] exI [of _ t]) simp
next
  have "\<forall>lk \<in> set (transaction_links signer changes).
      \<exists>hc tc. map_of (dict_pop changes signer) (fst lk) = Some hc \<and> swap_shaped hc \<and>
        map_of (dict_pop changes signer) (snd lk) = Some tc \<and> swap_shaped tc"
    using link_owners [OF assms] by blast
  from classify_links_spec [OF this]
  show "\<exists>st'. find_arbitrage signature signer changes st = Inr st' \<and>
            records st' =
              records st @
              concat (map (chain_record signature signer (dict_pop changes signer))
                        (transaction_links signer changes))"
    by (simp add: find_arbitrage_def)
qed


theorem arbitrage_classification_witness:
  "distinct (map fst with_signer) \<and>
   transaction_links ''S'' with_signer = [(''P'', ''Q'')] \<and>
   map_of (dict_pop with_signer ''S'') ''P'' = Some [(''tokenA'', 30), (''tokenB'', - 10)] \<and>
   positive_entries [(''tokenA'', 30), (''tokenB'', - 10)] = [(''tokenA'', 30)] \<and>
   map_of (dict_pop with_signer ''S'') ''Q'' = Some [(''tokenB'', 10), (''tokenA'', - 35)] \<and>
   negative_entries [(''tokenB'', 10), (''tokenA'', - 35)] = [(''tokenA'', - 35)] \<and>
   find_arbitrage ''sig'' ''S'' with_signer \<lparr>records = [], first_entry = None, last_entry = None\<rparr> =
     Inr \<lparr>records = [(''sig'', ''S'', ''tokenA'', 5)],
          first_entry = Some (''tokenA'', 30), last_entry = Some (''tokenA'', - 35)\<rparr>"
  using arbitrage_classification [of with_signer "''S''" "''sig''"
      "\<lparr>records = [], first_entry = None, last_entry = None\<rparr>"]
  by (simp add: with_signer_run with_signer_transaction_links positive_entries_def
      negative_entries_def, simp add: with_signer_def dict_pop_def)

text \<open>
  C3. A link whose head and tail are the same owner yields no record: the owner has exactly
  two entries, of distinct tokens and opposite sign, so its positive token is not its
  negative token.
\<close>

theorem closed_loop_no_record:
  assumes "wf_changes changes" and "lk \<in> set (transaction_links signer changes)"
    and "fst lk = snd lk"
  shows "chain_record signature signer (dict_pop changes signer) lk = [] \<and>
         (\<exists>st'. classify_link signature signer (dict_pop changes signer) st lk = Inr st' \<and>
            records st' = records st) \<and>
         (\<exists>m1 c1 m2 c2. map_of (dict_pop changes signer) (fst lk) = Some [(m1, c1), (m2, c2)] \<and>
            m1 \<noteq> m2 \<and> (c1 < 0 \<and> 0 < c2 \<or> 0 < c1 \<and> c2 < 0))"
proof -
  let ?d = "dict_pop changes signer"
  from assms(1) have dist: "distinct (map fst changes)"
    by (simp add: wf_changes_def)
  from link_owners [OF dist assms(2)] assms(3) obtain hc where
    hc: "map_of ?d (snd lk) = Some hc" "swap_shaped hc"
    by auto
  from hc(1) have "(snd lk, hc) \<in> set ?d"
    by (rule map_of_SomeD)
  with assms(1) have dh: "distinct (map fst hc)"
    using wf_dict_pop [of changes signer] by (auto simp: wf_changes_def)
  from swap_shaped_entries [OF hc(2), of "first_entry st" "last_entry st"] dh obtain h t where
    ht: "positive_entries hc = [h]" "negative_entries hc = [t]"
      "for_break (\<lambda>e. 0 < snd e) hc (first_entry st) = Some h"
      "for_break (\<lambda>e. snd e < 0) hc (last_entry st) = Some t" "fst h \<noteq> fst t"
    by blast
  from hc(1) assms(3) have hc': "map_of ?d (fst lk) = Some hc"
    by simp
  have 1: "chain_record signature signer ?d lk = []"
    using hc(1) hc' ht(1,2,5) by (simp add: chain_record_def)
  have "classify_link signature signer ?d st lk =
      Inr \<lparr>records = records st @ chain_record signature signer ?d lk,
           first_entry = Some h, last_entry = Some t\<rparr>"
    using hc' ht(1,3) hc(1) ht(2,4) by (rule classify_link_spec)
  with 1 have 2: "\<exists>st'. classify_link signature signer ?d st lk = Inr st' \<and> records st' = records st"
    by simp
  from hc(2) obtain m1 c1 m2 c2 where p: "hc = [(m1, c1), (m2, c2)]"
    and s: "c1 < 0 \<and> 0 < c2 \<or> 0 < c1 \<and> c2 < 0"
    by (rule swap_shapedE)
  from p dh have "m1 \<noteq> m2"
    by simp
  with p s hc' have 3: "\<exists>m1 c1 m2 c2. map_of ?d (fst lk) = Some [(m1, c1), (m2, c2)] \<and>
            m1 \<noteq> m2 \<and> (c1 < 0 \<and> 0 < c2 \<or> 0 < c1 \<and> c2 < 0)"
    by blast
  from 1 2 3 show ?thesis
    by blast
qed


theorem closed_loop_no_record_witness:
  "wf_changes zero_profit \<and>
   (''Q'', ''Q'') \<in> set (transaction_links ''S'' zero_profit) \<and>
   chain_record ''sig'' ''S'' (dict_pop zero_profit ''S'') (''Q'', ''Q'') = [] \<and>
   classify_link ''sig'' ''S'' (dict_pop zero_profit ''S'')
     \<lparr>records = [], first_entry = None, last_entry = None\<rparr> (''Q'', ''Q'') =
     Inr \<lparr>records = [], first_entry = Some (''tokenA'', 30), last_entry = Some (''tokenB'', - 30)\<rparr>"
proof -
  have 1: "wf_changes zero_profit"
    by (simp add: wf_changes_def zero_profit_def)
  have 2: "transaction_links ''S'' zero_profit = [(''Q'', ''Q'')]"
    using two_owner_run [of "''P''" "''Q''" "''S''" "''tokenA''" "''tokenB''" 30]
    by (simp add: zero_profit_def)
  have 3: "classify_link ''sig'' ''S'' (dict_pop zero_profit ''S'')
     \<lparr>records = [], first_entry = None, last_entry = None\<rparr> (''Q'', ''Q'') =
     Inr \<lparr>records = [], first_entry = Some (''tokenA'', 30), last_entry = Some (''tokenB'', - 30)\<rparr>"
    by (simp add: zero_profit_def dict_pop_def classify_link_def)
  from closed_loop_no_record [of zero_profit "(''Q'', ''Q'')" "''S''" "''sig''", OF 1] 2 3
  show ?thesis
    using 1 by simp
qed

text \<open>
  C1, as stated, fails: on the two-owner scenario the classifier appends no record, so the
  records are not the single record \<open>(signature, S, tokenB, 0)\<close>.
\<close>

theorem zero_profit_counterexample:
  "map_sum id records
     (find_arbitrage ''sig'' ''S'' zero_profit \<lparr>records = [], first_entry = None, last_entry = None\<rparr>)
     = Inr [] \<and>
   map_sum id records
     (find_arbitrage ''sig'' ''S'' zero_profit \<lparr>records = [], first_entry = None, last_entry = None\<rparr>)
     \<noteq> Inr [(''sig'', ''S'', ''tokenB'', 0)]"
  using two_owner_run [of "''P''" "''Q''" "''S''" "''tokenA''" "''tokenB''" 30 "''sig''"
      "\<lparr>records = [], first_entry = None, last_entry = None\<rparr>"]
  by (simp add: zero_profit_def)

text \<open>
  C1, amended. For a signer \<open>S\<close> and owners \<open>P\<close> with \<open>{A: -a, B: +a}\<close> and \<open>Q\<close> with
  \<open>{B: -a, A: +a}\<close>, in this order and with no other owner: \<open>pairs\<close> holds the edge from \<open>P\<close> to
  \<open>Q\<close> (token \<open>A\<close>) and the edge from \<open>Q\<close> to \<open>P\<close> (token \<open>B\<close>); the chain builder merges both
  into the one link \<open>[Q, P, Q]\<close>, recorded as \<open>(Q, Q)\<close>; the positive token of \<open>Q\<close> is \<open>A\<close> and
  its negative token is \<open>B\<close>, so the classifier appends no record.
\<close>

theorem two_owner_round_trip:
  assumes "P \<noteq> Q" and "P \<noteq> S" and "Q \<noteq> S" and "P \<noteq> []" and "Q \<noteq> []"
    and "A \<noteq> B" and "0 < a"
  shows "token_change_owners (dict_pop [(P, [(A, - a), (B, a)]), (Q, [(B, - a), (A, a)])] S) [] =
           [((A, a), (Some P, Some Q)), ((B, a), (Some Q, Some P))] \<and>
         transfer_pairs S [(P, [(A, - a), (B, a)]), (Q, [(B, - a), (A, a)])] = [(P, Q), (Q, P)] \<and>
         build_chains [(P, Q), (Q, P)] = [[Q, P, Q]] \<and>
         transaction_links S [(P, [(A, - a), (B, a)]), (Q, [(B, - a), (A, a)])] = [(Q, Q)] \<and>
         find_arbitrage signature S [(P, [(A, - a), (B, a)]), (Q, [(B, - a), (A, a)])] st =
           Inr \<lparr>records = records st, first_entry = Some (A, a), last_entry = Some (B, - a)\<rparr>"
  using assms by (rule two_owner_run)

theorem two_owner_round_trip_witness:
  "''P'' \<noteq> ''Q'' \<and> ''P'' \<noteq> ''S'' \<and> ''Q'' \<noteq> ''S'' \<and> ''P'' \<noteq> [] \<and> ''Q'' \<noteq> [] \<and>
   ''tokenA'' \<noteq> ''tokenB'' \<and> (0 :: rat) < 30 \<and>
   token_change_owners (dict_pop zero_profit ''S'') [] =
     [((''tokenA'', 30), (Some ''P'', Some ''Q'')), ((''tokenB'', 30), (Some ''Q'', Some ''P''))] \<and>
   transfer_pairs ''S'' zero_profit = [(''P'', ''Q''), (''Q'', ''P'')] \<and>
   build_chains [(''P'', ''Q''), (''Q'', ''P'')] = [[''Q'', ''P'', ''Q'']] \<and>
   transaction_links ''S'' zero_profit = [(''Q'', ''Q'')] \<and>
   find_arbitrage ''sig'' ''S'' zero_profit \<lparr>records = [], first_entry = None, last_entry = None\<rparr> =
     Inr \<lparr>records = [], first_entry = Some (''tokenA'', 30), last_entry = Some (''tokenB'', - 30)\<rparr>"
  using two_owner_round_trip [of "''P''" "''Q''" "''S''" "''tokenA''" "''tokenB''" 30 "''sig''"
      "\<lparr>records = [], first_entry = None, last_entry = None\<rparr>"]
  by (simp add: zero_profit_def)

subsection \<open>Balance changes\<close>

text \<open>
  C8. \<open>construct_balance_changes\<close> does not drop an owner left with no entries. An owner
  whose only balance is 5 before and 5 after accumulates the integer 0 for its mint; the
  entry is dropped, and the owner stays, mapped to the empty dictionary: the test \<open>if v\<close>
  looks at the accumulated dictionary, which is never empty.
\<close>

theorem unchanged_owner_kept:
  "construct_balance_changes unchanged_balance = Inr [(''O'', [])] \<and>
   construct_balance_changes unchanged_balance \<noteq> Inr []"
  by (simp add: construct_balance_changes_def unchanged_balance_def entry_def or_zero_def
      py_int_def unsigned_int_def digit_of_def add_change_def)

lemma wf_add_change:
  assumes "wf_changes acc"
  shows "wf_changes (add_change acc ow m n)"
proof -
  let ?inner = "case map_of acc ow of None \<Rightarrow> [] | Some d \<Rightarrow> d"
  let ?old = "case map_of ?inner m of None \<Rightarrow> 0 | Some y \<Rightarrow> y"
  let ?new = "dict_set ?inner m (?old + n)"
  have eq: "add_change acc ow m n = dict_set acc ow ?new"
    by (simp add: add_change_def Let_def)
  have "distinct (map fst ?inner)"
  proof (cases "map_of acc ow")
    case None
    then show ?thesis by simp
  next
    case (Some d)
    then have "(ow, d) \<in> set acc"
      by (rule map_of_SomeD)
    with assms Some show ?thesis
      by (auto simp: wf_changes_def)
  qed
  then have new: "distinct (map fst ?new)"
    by (rule distinct_dict_set)
  have "distinct (map fst (dict_set acc ow ?new))"
    using assms by (simp add: wf_changes_def distinct_dict_set)
  moreover have "distinct (map fst (snd e))" if "e \<in> set (dict_set acc ow ?new)" for e
  proof -
    from that set_dict_set [of acc ow ?new] have "e = (ow, ?new) \<or> e \<in> set acc"
      by auto
    with new assms show ?thesis
      by (auto simp: wf_changes_def)
  qed
  ultimately show ?thesis
    unfolding eq wf_changes_def by blast
qed

lemma wf_accumulate:
  "wf_changes (fst st) \<Longrightarrow> accumulate sg bs st = Inr st' \<Longrightarrow> wf_changes (fst st')"
proof (induction bs arbitrary: st)
  case Nil
  then show ?case by simp
next
  case (Cons b bs)
  from Cons.prems(2) obtain n where n: "py_int (or_zero (ui_amount (tb_uiTokenAmount b))) = Inr n"
    by (auto split: sum.splits)
  let ?st = "(add_change (fst st) (tb_owner b) (tb_mint b) (sg * n),
             dict_set (snd st) (tb_mint b) (ui_decimals (tb_uiTokenAmount b)))"
  from Cons.prems(2) n have "accumulate sg bs ?st = Inr st'"
    by simp
  moreover from Cons.prems(1) have "wf_changes (fst ?st)"
    by (simp add: wf_add_change)
  ultimately show ?case
    by (rule Cons.IH [rotated])
qed

lemma scale_items_keys:
  "scale_items decs v = Inr r \<Longrightarrow> map fst r = map fst (filter (\<lambda>e. snd e \<noteq> 0) v)"
  by (induction v arbitrary: r) (auto split: if_splits option.splits sum.splits)

lemma scale_owners_wf:
  "scale_owners decs acc = Inr rs \<Longrightarrow>
     map fst rs = map fst (filter (\<lambda>e. snd e \<noteq> []) acc) \<and>
     ((\<forall>e \<in> set acc. distinct (map fst (snd e))) \<longrightarrow> (\<forall>e \<in> set rs. distinct (map fst (snd e))))"
proof (induction acc arbitrary: rs)
  case Nil
  then show ?case by simp
next
  case (Cons e acc)
  show ?case
  proof (cases "snd e = []")
    case True
    with Cons show ?thesis
      by simp
  next
    case False
    with Cons.prems obtain r rs' where r: "scale_items decs (snd e) = Inr r"
        "scale_owners decs acc = Inr rs'" "rs = (fst e, r) # rs'"
      by (auto split: sum.splits)
    from r(1) have "map fst r = map fst (filter (\<lambda>x. snd x \<noteq> 0) (snd e))"
      by (rule scale_items_keys)
    then have "distinct (map fst (snd e)) \<Longrightarrow> distinct (map fst r)"
      by (simp add: distinct_map_filter)
    with Cons.IH [OF r(2)] r(3) False show ?thesis
      by simp
  qed
qed

lemma construct_balance_changes_wf:
  assumes "construct_balance_changes meta = Inr changes"
  shows "wf_changes changes"
proof -
  from assms obtain st1 st2 where
    1: "accumulate 1 (postTokenBalances meta) ([], []) = Inr st1" and
    2: "accumulate (- 1) (preTokenBalances meta) st1 = Inr st2" and
    3: "scale_owners (snd st2) (fst st2) = Inr changes"
    by (auto simp: construct_balance_changes_def split: sum.splits)
  have "wf_changes (fst (([], []) :: change_acc \<times> (mint \<times> int) list))"
    by (simp add: wf_changes_def)
  from wf_accumulate [OF this 1] have "wf_changes (fst st1)" .
  from wf_accumulate [OF this 2] have w: "wf_changes (fst st2)" .
  from scale_owners_wf [OF 3] w show ?thesis
    by (simp add: wf_changes_def distinct_map_filter)
qed

text \<open>No owner of a token balance is ever missing from the result.\<close>

lemma dict_set_not_Nil: "dict_set d k v \<noteq> []"
  by (cases d) (auto split: if_splits)

lemma add_change_owners:
  "fst ` set (add_change acc ow m n) = insert ow (fst ` set acc) \<and>
   ((\<forall>e \<in> set acc. snd e \<noteq> []) \<longrightarrow> (\<forall>e \<in> set (add_change acc ow m n). snd e \<noteq> []))"
proof -
  let ?inner = "case map_of acc ow of None \<Rightarrow> [] | Some d \<Rightarrow> d"
  let ?old = "case map_of ?inner m of None \<Rightarrow> 0 | Some y \<Rightarrow> y"
  let ?new = "dict_set ?inner m (?old + n)"
  have eq: "add_change acc ow m n = dict_set acc ow ?new"
    by (simp add: add_change_def Let_def)
  have "set (map fst (dict_set acc ow ?new)) = insert ow (fst ` set acc)"
    by (simp only: keys_dict_set) auto
  moreover have "snd e \<noteq> []" if "\<forall>e \<in> set acc. snd e \<noteq> []" "e \<in> set (dict_set acc ow ?new)" for e
  proof -
    from that(2) set_dict_set [of acc ow ?new] have "e = (ow, ?new) \<or> e \<in> set acc"
      by auto
    with that(1) show ?thesis
      by (auto simp: dict_set_not_Nil)
  qed
  ultimately show ?thesis
    unfolding eq by auto
qed

lemma accumulate_owners:
  "accumulate sg bs st = Inr st' \<Longrightarrow> \<forall>e \<in> set (fst st). snd e \<noteq> [] \<Longrightarrow>
     fst ` set (fst st') = fst ` set (fst st) \<union> tb_owner ` set bs \<and>
     (\<forall>e \<in> set (fst st'). snd e \<noteq> [])"
proof (induction bs arbitrary: st)
  case Nil
  then show ?case by simp
next
  case (Cons b bs)
  from Cons.prems(1) obtain n where n: "py_int (or_zero (ui_amount (tb_uiTokenAmount b))) = Inr n"
    by (auto split: sum.splits)
  let ?acc = "add_change (fst st) (tb_owner b) (tb_mint b) (sg * n)"
  let ?st = "(?acc, dict_set (snd st) (tb_mint b) (ui_decimals (tb_uiTokenAmount b)))"
  from Cons.prems(1) n have 1: "accumulate sg bs ?st = Inr st'"
    by simp
  from Cons.prems(2) have 2: "\<forall>e \<in> set (fst ?st). snd e \<noteq> []"
    using add_change_owners [of "fst st" "tb_owner b" "tb_mint b" "sg * n"] by simp
  have 3: "fst ` set ?acc = insert (tb_owner b) (fst ` set (fst st))"
    using add_change_owners [of "fst st" "tb_owner b" "tb_mint b" "sg * n"] by simp
  from Cons.IH [OF 1 2] 3 show ?case
    by auto
qed

lemma construct_balance_changes_owners:
  assumes "construct_balance_changes meta = Inr changes"
  shows "fst ` set changes = tb_owner ` (set (postTokenBalances meta) \<union> set (preTokenBalances meta))"
proof -
  from assms obtain st1 st2 where
    1: "accumulate 1 (postTokenBalances meta) ([], []) = Inr st1" and
    2: "accumulate (- 1) (preTokenBalances meta) st1 = Inr st2" and
    3: "scale_owners (snd st2) (fst st2) = Inr changes"
    by (auto simp: construct_balance_changes_def split: sum.splits)
  from accumulate_owners [OF 1] have a: "fst ` set (fst st1) = tb_owner ` set (postTokenBalances meta)"
      "\<forall>e \<in> set (fst st1). snd e \<noteq> []"
    by simp_all
  from accumulate_owners [OF 2 a(2)] a(1) have b:
      "fst ` set (fst st2) = tb_owner ` (set (postTokenBalances meta) \<union> set (preTokenBalances meta))"
      "\<forall>e \<in> set (fst st2). snd e \<noteq> []"
    by auto
  from b(2) have "filter (\<lambda>e. snd e \<noteq> []) (fst st2) = fst st2"
    by (simp add: filter_id_conv)
  with scale_owners_wf [OF 3] have "map fst changes = map fst (fst st2)"
    by simp
  then have "set (map fst changes) = set (map fst (fst st2))"
    by simp
  with b(1) show ?thesis
    by simp
qed

text \<open>The entries that are kept hold the net change scaled by the mint's decimal places,
  and an entry is kept exactly when the net change is not zero.\<close>

lemma acc_value_add_change:
  "acc_value (add_change acc ow m n) ow' m' =
     acc_value acc ow' m' + (if ow' = ow \<and> m' = m then n else 0)"
  by (auto simp: acc_value_def add_change_def Let_def map_of_dict_set split: option.splits)

lemma accumulate_value:
  "accumulate sg bs st = Inr st' \<Longrightarrow>
     acc_value (fst st') ow m = acc_value (fst st) ow m + sg * total bs ow m"
proof (induction bs arbitrary: st)
  case Nil
  then show ?case by (simp add: total_def)
next
  case (Cons b bs)
  from Cons.prems obtain n where n: "py_int (or_zero (ui_amount (tb_uiTokenAmount b))) = Inr n"
    by (auto split: sum.splits)
  let ?st = "(add_change (fst st) (tb_owner b) (tb_mint b) (sg * n),
             dict_set (snd st) (tb_mint b) (ui_decimals (tb_uiTokenAmount b)))"
  from Cons.prems n have "accumulate sg bs ?st = Inr st'"
    by simp
  from Cons.IH [OF this] have "acc_value (fst st') ow m =
      acc_value (fst st) ow m + (if ow = tb_owner b \<and> m = tb_mint b then sg * n else 0)
        + sg * total bs ow m"
    by (simp add: acc_value_add_change)
  moreover from n have "raw_amount b = n"
    by (simp add: raw_amount_def)
  ultimately show ?case
    by (auto simp: total_def algebra_simps)
qed

lemma accumulate_decimals:
  "accumulate sg bs st = Inr st' \<Longrightarrow>
     map_of (snd st') m = last_decimals bs (map_of (snd st) m) m"
proof (induction bs arbitrary: st)
  case Nil
  then show ?case by (simp add: last_decimals_def)
next
  case (Cons b bs)
  from Cons.prems obtain n where n: "py_int (or_zero (ui_amount (tb_uiTokenAmount b))) = Inr n"
    by (auto split: sum.splits)
  let ?st = "(add_change (fst st) (tb_owner b) (tb_mint b) (sg * n),
             dict_set (snd st) (tb_mint b) (ui_decimals (tb_uiTokenAmount b)))"
  from Cons.prems n have "accumulate sg bs ?st = Inr st'"
    by simp
  from Cons.IH [OF this] show ?case
    by (simp add: last_decimals_def map_of_dict_set)
qed

lemma scale_items_values:
  "scale_items decs v = Inr r \<Longrightarrow> distinct (map fst v) \<Longrightarrow>
     map_of r x =
       (case map_of v x of
          None \<Rightarrow> None
        | Some y \<Rightarrow> if y = 0 then None else map_option (\<lambda>d. of_int y / pow10 d) (map_of decs x))"
proof (induction v arbitrary: r)
  case Nil
  then show ?case by simp
next
  case (Cons e v)
  obtain k y where e: "e = (k, y)"
    by (cases e)
  show ?case
  proof (cases "y = 0")
    case True
    with Cons.prems e have "scale_items decs v = Inr r" "distinct (map fst v)" "k \<notin> fst ` set v"
      by auto
    with Cons.IH [of r] e True show ?thesis
      by (auto simp: map_of_eq_None_iff [symmetric] simp del: map_of_eq_None_iff)
  next
    case False
    with Cons.prems e obtain d r' where d: "map_of decs k = Some d"
        "scale_items decs v = Inr r'" "r = (k, of_int y / pow10 d) # r'"
      by (auto split: option.splits sum.splits)
    from Cons.prems(2) have "distinct (map fst v)"
      by simp
    from Cons.IH [OF d(2) this] d(1,3) e False show ?thesis
      by simp
  qed
qed

lemma scale_owners_values:
  "scale_owners decs acc = Inr rs \<Longrightarrow> distinct (map fst acc) \<Longrightarrow> map_of rs k = Some r \<Longrightarrow>
     \<exists>v. map_of acc k = Some v \<and> scale_items decs v = Inr r"
proof (induction acc arbitrary: rs)
  case Nil
  then show ?case by simp
next
  case (Cons e acc)
  show ?case
  proof (cases "snd e = []")
    case True
    with Cons.prems have 1: "scale_owners decs acc = Inr rs" "distinct (map fst acc)"
      by simp_all
    from Cons.IH [OF 1 Cons.prems(3)] obtain v where v: "map_of acc k = Some v" "scale_items decs v = Inr r"
      by blast
    from v(1) have "k \<in> fst ` set acc"
      by (metis domI dom_map_of_conv_image_fst)
    with Cons.prems(2) have "fst e \<noteq> k"
      by auto
    with v show ?thesis
      by (cases e) auto
  next
    case False
    with Cons.prems(1) obtain r0 rs' where r: "scale_items decs (snd e) = Inr r0"
        "scale_owners decs acc = Inr rs'" "rs = (fst e, r0) # rs'"
      by (auto split: sum.splits)
    show ?thesis
    proof (cases "fst e = k")
      case True
      with Cons.prems(3) r show ?thesis
        by (cases e) auto
    next
      case False
      with Cons.prems(3) r(3) have "map_of rs' k = Some r"
        by simp
      from Cons.IH [OF r(2) _ this] Cons.prems(2) False show ?thesis
        by (cases e) auto
    qed
  qed
qed

lemma construct_balance_changes_values:
  assumes "construct_balance_changes meta = Inr changes" and "map_of changes ow = Some pmc"
  shows "map_of pmc m =
           (if net_change meta ow m = 0 then None
            else map_option (\<lambda>d. of_int (net_change meta ow m) / pow10 d) (mint_decimals meta m))"
proof -
  from assms(1) obtain st1 st2 where
    1: "accumulate 1 (postTokenBalances meta) ([], []) = Inr st1" and
    2: "accumulate (- 1) (preTokenBalances meta) st1 = Inr st2" and
    3: "scale_owners (snd st2) (fst st2) = Inr changes"
    by (auto simp: construct_balance_changes_def split: sum.splits)
  have "wf_changes (fst (([], []) :: change_acc \<times> (mint \<times> int) list))"
    by (simp add: wf_changes_def)
  from wf_accumulate [OF this 1] have "wf_changes (fst st1)" .
  from wf_accumulate [OF this 2] have w: "wf_changes (fst st2)" .
  then have dist: "distinct (map fst (fst st2))"
    by (simp add: wf_changes_def)
  from scale_owners_values [OF 3 dist assms(2)] obtain v where
    v: "map_of (fst st2) ow = Some v" "scale_items (snd st2) v = Inr pmc"
    by blast
  from v(1) have "(ow, v) \<in> set (fst st2)"
    by (rule map_of_SomeD)
  with w have dv: "distinct (map fst v)"
    by (auto simp: wf_changes_def)
  have "acc_value (fst st2) ow m = acc_value (fst st1) ow m - total (preTokenBalances meta) ow m"
    using accumulate_value [OF 2, of ow m] by simp
  also have "acc_value (fst st1) ow m = total (postTokenBalances meta) ow m"
    using accumulate_value [OF 1, of ow m] by (simp add: acc_value_def)
  finally have net: "acc_value (fst st2) ow m = net_change meta ow m"
    by (simp add: net_change_def)
  have "map_of (snd st2) m = last_decimals (preTokenBalances meta) (map_of (snd st1) m) m"
    by (rule accumulate_decimals [OF 2])
  also have "map_of (snd st1) m = last_decimals (postTokenBalances meta) None m"
    using accumulate_decimals [OF 1, of m] by simp
  finally have dec: "map_of (snd st2) m = mint_decimals meta m"
    by (simp add: mint_decimals_def last_decimals_def)
  from net v(1) have "(case map_of v m of None \<Rightarrow> 0 | Some y \<Rightarrow> y) = net_change meta ow m"
    by (simp add: acc_value_def)
  with scale_items_values [OF v(2) dv, of m] dec show ?thesis
    by (auto split: option.splits)
qed

lemma with_signer_meta_changes: "construct_balance_changes with_signer_meta = Inr with_signer"
  by (simp add: construct_balance_changes_def with_signer_meta_def entry_def or_zero_def
      py_int_def unsigned_int_def digit_of_def add_change_def pow10_def with_signer_def)

lemma with_signer_run_any:
  "find_arbitrage ''sig'' ''S'' with_signer st =
     Inr \<lparr>records = records st @ [(''sig'', ''S'', ''tokenA'', 5)],
          first_entry = Some (''tokenA'', 30), last_entry = Some (''tokenA'', - 35)\<rparr>"
  unfolding find_arbitrage_def with_signer_transaction_links
  by (simp add: with_signer_def dict_pop_def classify_link_def)

subsection \<open>The whole transaction\<close>

text \<open>
  C10. What a transaction does is a function of the transaction alone: either it raises the
  same error from every state, or there is one list of records that it appends, in the
  same order, to the records of whatever state it starts from; neither the records so far
  nor the loop variables left by earlier chains have any influence. Two runs on the same
  input therefore yield the same records.
\<close>

theorem pipeline_deterministic:
  "(\<exists>e. \<forall>st. process_transaction signature signer meta st = Inl e) \<or>
   (\<exists>out. \<forall>st. \<exists>st'. process_transaction signature signer meta st = Inr st' \<and>
       records st' = records st @ out)"
proof (cases "construct_balance_changes meta")
  case (Inl e)
  then have "\<forall>st. process_transaction signature signer meta st = Inl e"
    by (simp add: process_transaction_def)
  then show ?thesis
    by blast
next
  case (Inr changes)
  then have "wf_changes changes"
    by (rule construct_balance_changes_wf)
  then have dist: "distinct (map fst changes)"
    by (simp add: wf_changes_def)
  have "\<forall>lk \<in> set (transaction_links signer changes).
      \<exists>hc tc. map_of (dict_pop changes signer) (fst lk) = Some hc \<and> swap_shaped hc \<and>
        map_of (dict_pop changes signer) (snd lk) = Some tc \<and> swap_shaped tc"
    using link_owners [OF dist] by blast
  from classify_links_spec [OF this, of signature signer]
  have "\<forall>st. \<exists>st'. process_transaction signature signer meta st = Inr st' \<and>
      records st' = records st @ concat (map (chain_record signature signer (dict_pop changes signer))
                        (transaction_links signer changes))"
    using Inr by (simp add: process_transaction_def find_arbitrage_def)
  then show ?thesis
    by blast
qed

theorem pipeline_deterministic_witness:
  "process_transaction ''sig'' ''S'' with_signer_meta
     \<lparr>records = [], first_entry = None, last_entry = None\<rparr> =
     Inr \<lparr>records = [(''sig'', ''S'', ''tokenA'', 5)],
          first_entry = Some (''tokenA'', 30), last_entry = Some (''tokenA'', - 35)\<rparr> \<and>
   process_transaction ''sig'' ''S'' with_signer_meta
     \<lparr>records = [(''sig'', ''S'', ''tokenA'', 5)],
      first_entry = Some (''tokenA'', 30), last_entry = Some (''tokenA'', - 35)\<rparr> =
     Inr \<lparr>records = [(''sig'', ''S'', ''tokenA'', 5), (''sig'', ''S'', ''tokenA'', 5)],
          first_entry = Some (''tokenA'', 30), last_entry = Some (''tokenA'', - 35)\<rparr>"
  using pipeline_deterministic [of "''sig''" "''S''" with_signer_meta]
  by (simp add: process_transaction_def with_signer_meta_changes with_signer_run_any)

end
